theory Spec2Isabelle
  imports
    Main
    "HOL-Library.Word"
    "HOL-Library.Multiset"
    "HOL-Library.Log_Nat"
begin

section \<open>Run-time panics\<close>

text \<open>
  The Go run time aborts the program on an index outside a slice, on a slice expression
  outside the capacity, and \<^verbatim>\<open>rand.Intn\<close> panics on a bound that is not positive.
  Each of these is a value of the model. Slices are lists whose capacity is their length,
  as every slice of the program is made (\<^verbatim>\<open>make([]T, n)\<close>); pointers are never nil.
\<close>

datatype panic = IndexOutOfRange | SliceBoundsOutOfRange | IntnInvalidArgument

section \<open>Values of type float64\<close>

text \<open>
  A float64 is a finite rational, an infinity or NaN. The sign of zero is not tracked
  (zero behaves as +0).
\<close>

datatype f64 = Fin rat | PInf | NInf | NaN

text \<open>The comparison \<^verbatim>\<open>x < y\<close> of Go on float64: false as soon as one side is NaN.\<close>

fun f64_less :: "f64 \<Rightarrow> f64 \<Rightarrow> bool" where
  "f64_less NaN y = False"
| "f64_less x NaN = False"
| "f64_less (Fin a) (Fin b) = (a < b)"
| "f64_less (Fin a) PInf = True"
| "f64_less (Fin a) NInf = False"
| "f64_less PInf y = False"
| "f64_less NInf (Fin b) = True"
| "f64_less NInf PInf = True"
| "f64_less NInf NInf = False"

text \<open>
  \<open>pow2 e\<close> is \<open>2\<^sup>e\<close> for an integer exponent, \<open>ilog2 q\<close> is \<open>\<lfloor>log\<^sub>2 q\<rfloor>\<close> for \<open>q > 0\<close>
  (from the bit lengths of numerator and denominator), \<open>round_even\<close> rounds to the
  nearest integer, ties to even.
\<close>

definition pow2 :: "int \<Rightarrow> rat" where
  "pow2 e = (if 0 \<le> e then 2 ^ nat e else 1 / 2 ^ nat (- e))"

definition ilog2 :: "rat \<Rightarrow> int" where
  "ilog2 q = (case quotient_of q of (a, b) \<Rightarrow>
     let d = bitlen a - bitlen b in if pow2 d \<le> q then d else d - 1)"

definition round_even :: "rat \<Rightarrow> int" where
  "round_even x = (let f = \<lfloor>x\<rfloor>; r = x - of_int f in
     if r < 1 / 2 then f else if 1 / 2 < r then f + 1 else if even f then f else f + 1)"

text \<open>
  Rounding of an exact result to binary64, to nearest, ties to even: 53 significant bits,
  the unit in the last place never below \<open>2\<^sup>-\<^sup>1\<^sup>0\<^sup>7\<^sup>4\<close> (subnormal numbers), an infinity
  once the rounded value reaches \<open>2\<^sup>1\<^sup>0\<^sup>2\<^sup>4\<close>.
\<close>

definition ulp_exp :: "rat \<Rightarrow> int" where
  "ulp_exp q = max (ilog2 \<bar>q\<bar> - 52) (- 1074)"

definition round_grid :: "rat \<Rightarrow> rat" where
  "round_grid q = of_int (round_even (q / pow2 (ulp_exp q))) * pow2 (ulp_exp q)"

definition round64 :: "rat \<Rightarrow> f64" where
  "round64 q = (if q = 0 then Fin 0
     else if pow2 1024 \<le> \<bar>round_grid q\<bar> then (if 0 < q then PInf else NInf)
     else Fin (round_grid q))"

text \<open>The conversion \<^verbatim>\<open>float64(i)\<close> of an integer.\<close>

definition f64_of_int :: "int \<Rightarrow> f64" where
  "f64_of_int i = round64 (of_int i)"

text \<open>Division and multiplication of IEEE 754, as Go's \<^verbatim>\<open>/\<close> and \<^verbatim>\<open>*\<close> on float64.\<close>

fun f64_div :: "f64 \<Rightarrow> f64 \<Rightarrow> f64" where
  "f64_div NaN y = NaN"
| "f64_div x NaN = NaN"
| "f64_div (Fin a) (Fin b) =
     (if b = 0 then (if a = 0 then NaN else if 0 < a then PInf else NInf)
      else round64 (a / b))"
| "f64_div (Fin a) PInf = Fin 0"
| "f64_div (Fin a) NInf = Fin 0"
| "f64_div PInf (Fin b) = (if 0 \<le> b then PInf else NInf)"
| "f64_div NInf (Fin b) = (if 0 \<le> b then NInf else PInf)"
| "f64_div PInf PInf = NaN"
| "f64_div PInf NInf = NaN"
| "f64_div NInf PInf = NaN"
| "f64_div NInf NInf = NaN"


text \<open>The integer square root, by halving the number of bits.\<close>

function isqrt :: "int \<Rightarrow> int" where
  "isqrt n = (if n \<le> 0 then 0
              else let r = 2 * isqrt (n div 4) in if (r + 1) * (r + 1) \<le> n then r + 1 else r)"
  by pat_completeness auto
termination
  by (relation "measure nat") auto

declare isqrt.simps [simp del]

text \<open>
  \<^verbatim>\<open>math.Sqrt\<close>: the correctly rounded square root. For \<open>q > 0\<close> the result has exponent
  \<open>\<lfloor>ilog2 q / 2\<rfloor>\<close> and is never subnormal; with \<open>e\<close> the exponent of its last place,
  \<open>m\<close> is the integer part of \<open>\<surd>q / 2\<^sup>e\<close> and the comparison of \<open>q / 4\<^sup>e\<close> with
  \<open>(m + 1/2)\<^sup>2\<close> decides the rounding.
\<close>

definition f64_sqrt :: "f64 \<Rightarrow> f64" where
  "f64_sqrt x = (case x of
       NaN \<Rightarrow> NaN
     | NInf \<Rightarrow> NaN
     | PInf \<Rightarrow> PInf
     | Fin q \<Rightarrow>
         if q < 0 then NaN
         else if q = 0 then Fin 0
         else
           let e = ilog2 q div 2 - 52;
               y = q / pow2 (2 * e);
               m = isqrt \<lfloor>y\<rfloor>;
               h = (of_int m + 1 / 2) * (of_int m + 1 / 2);
               m' = (if y < h then m else if h < y then m + 1
                     else if even m then m else m + 1)
           in Fin (of_int m' * pow2 e))"

text \<open>
  The conversions \<^verbatim>\<open>int64(x)\<close> and \<^verbatim>\<open>int(x)\<close> (64 bits) of a float64 discard the fraction.
  For NaN, the infinities and values outside the range of int64 the language leaves the
  result to the implementation: it is the parameter \<open>indef\<close>. On amd64 it is the
  smallest int64 for each of them.
\<close>

definition f64_trunc :: "rat \<Rightarrow> int" where
  "f64_trunc q = (if 0 \<le> q then \<lfloor>q\<rfloor> else \<lceil>q\<rceil>)"

definition int64_of_f64 :: "(f64 \<Rightarrow> 64 word) \<Rightarrow> f64 \<Rightarrow> 64 word" where
  "int64_of_f64 indef x = (case x of
       Fin q \<Rightarrow> (let t = f64_trunc q in
                  if - (2 ^ 63) \<le> t \<and> t < 2 ^ 63 then word_of_int t else indef x)
     | _ \<Rightarrow> indef x)"

definition indef_amd64 :: "f64 \<Rightarrow> 64 word" where
  "indef_amd64 x = word_of_int (- (2 ^ 63))"

section \<open>The random source\<close>

text \<open>
  Package \<^verbatim>\<open>math/rand\<close> is not part of the repository. Its generator is a parameter of
  the model: a state of type \<open>'s\<close> and the two functions the program calls, each
  returning the drawn value and the next state. \<open>rand_ok\<close> is the documented contract:
  \<^verbatim>\<open>Intn(n)\<close> lies in \<open>[0, n)\<close> for \<open>n > 0\<close>, and \<^verbatim>\<open>Float64()\<close> lies in \<open>[0.0, 1.0)\<close>.
\<close>

record 's rand_src =
  Intn :: "int \<Rightarrow> 's \<Rightarrow> int \<times> 's"
  Float64 :: "'s \<Rightarrow> f64 \<times> 's"

definition unit_interval :: "f64 \<Rightarrow> bool" where
  "unit_interval x = (case x of Fin q \<Rightarrow> 0 \<le> q \<and> q < 1 | _ \<Rightarrow> False)"

definition rand_ok :: "'s rand_src \<Rightarrow> bool" where
  "rand_ok R \<longleftrightarrow>
     (\<forall>n s. 0 < n \<longrightarrow> 0 \<le> fst (Intn R n s) \<and> fst (Intn R n s) < n) \<and>
     (\<forall>s. unit_interval (fst (Float64 R s)))"

text \<open>\<^verbatim>\<open>rand.Intn(n)\<close> as the program sees it: a panic for \<open>n \<le> 0\<close>.\<close>

definition rand_Intn :: "'s rand_src \<Rightarrow> int \<Rightarrow> 's \<Rightarrow> panic + (int \<times> 's)" where
  "rand_Intn R n s = (if n \<le> 0 then Inl IntnInvalidArgument else Inr (Intn R n s))"

text \<open>A deterministic source for running the model: a counter.\<close>

definition counter_src :: "nat rand_src" where
  "counter_src = \<lparr> Intn = (\<lambda>n s. (int s mod n, Suc s)),
                   Float64 = (\<lambda>s. (Fin (1 / 2), Suc s)) \<rparr>"

section \<open>Filling the pool\<close>

text \<open>
  The inner loop of every \<^verbatim>\<open>createPool\<close>:
  \<^verbatim>\<open>for n := 0; n < num; n++ { pool = append(pool, x) }\<close>
  The counter stays below \<open>num\<close>, a 64-bit integer, so it never wraps and is an \<open>int\<close> here.
\<close>

function append_n :: "int \<Rightarrow> int \<Rightarrow> 'a \<Rightarrow> 'a list \<Rightarrow> 'a list" where
  "append_n n num x pool = (if n < num then append_n (n + 1) num x (pool @ [x]) else pool)"
  by pat_completeness auto
termination
  by (relation "measure (\<lambda>(n, num, x, pool). nat (num - n))") auto

declare append_n.simps [simp del]

section \<open>Crossover\<close>

text \<open>
  The loop shared by both \<^verbatim>\<open>crossover\<close> functions:
  \<^verbatim>\<open>for i := 0; i < len(g1); i++ { if i > mid { child[i] = g1[i] } else { child[i] = g2[i] } }\<close>
  \<open>child\<close> has the length of \<open>g1\<close>; reading \<open>g2\<close> beyond its end panics.
\<close>

function crossover_loop ::
  "int \<Rightarrow> 'a list \<Rightarrow> 'a list \<Rightarrow> nat \<Rightarrow> 'a list \<Rightarrow> panic + 'a list" where
  "crossover_loop mid g1 g2 i child =
     (if i < length g1 then
        (if mid < int i then crossover_loop mid g1 g2 (Suc i) (child[i := g1 ! i])
         else if i < length g2 then crossover_loop mid g1 g2 (Suc i) (child[i := g2 ! i])
         else Inl IndexOutOfRange)
      else Inr child)"
  by pat_completeness auto
termination
  by (relation "measure (\<lambda>(mid, g1, g2, i, child). length g1 - i)") auto

declare crossover_loop.simps [simp del]

subsection \<open>The string program (the file with \<^verbatim>\<open>type DNA struct\<close> over \<^verbatim>\<open>[]byte\<close>)\<close>

record DNA =
  Gene :: "8 word list"
  Fitness :: f64

definition crossover :: "'s rand_src \<Rightarrow> DNA \<Rightarrow> DNA \<Rightarrow> 's \<Rightarrow> panic + (DNA \<times> 's)" where
  "crossover R d1 d2 s =
     (let child = \<lparr> Gene = replicate (length (Gene d1)) 0, Fitness = Fin 0 \<rparr> in
      case rand_Intn R (int (length (Gene d1))) s of
        Inl e \<Rightarrow> Inl e
      | Inr (mid, s') \<Rightarrow>
          (case crossover_loop mid (Gene d1) (Gene d2) 0 (Gene child) of
             Inl e \<Rightarrow> Inl e
           | Inr g \<Rightarrow> Inr (child\<lparr> Gene := g \<rparr>, s')))"

text \<open>
  \<^verbatim>\<open>mutate\<close>: one draw of \<^verbatim>\<open>rand.Float64()\<close> per position and, below the rate, one of
  \<^verbatim>\<open>rand.Intn(95)\<close> (its bound is positive: no panic). \<open>MutationRate\<close> is a global
  variable of the program, here an argument.
\<close>

function mutate_loop :: "'s rand_src \<Rightarrow> f64 \<Rightarrow> nat \<Rightarrow> 8 word list \<Rightarrow> 's \<Rightarrow> 8 word list \<times> 's" where
  "mutate_loop R MutationRate i g s =
     (if i < length g then
        (case Float64 R s of (r, s1) \<Rightarrow>
           if f64_less r MutationRate then
             (case Intn R 95 s1 of (v, s2) \<Rightarrow>
                mutate_loop R MutationRate (Suc i) (g[i := word_of_int (v + 32)]) s2)
           else mutate_loop R MutationRate (Suc i) g s1)
      else (g, s))"
  by pat_completeness auto
termination
  by (relation "measure (\<lambda>(R, rate, i, g, s). length g - i)") auto

declare mutate_loop.simps [simp del]

definition mutate :: "'s rand_src \<Rightarrow> f64 \<Rightarrow> DNA \<Rightarrow> 's \<Rightarrow> DNA \<times> 's" where
  "mutate R MutationRate d s =
     (case mutate_loop R MutationRate 0 (Gene d) s of (g, s') \<Rightarrow> (d\<lparr> Gene := g \<rparr>, s'))"

text \<open>
  \<^verbatim>\<open>calcFitness\<close> counts the positions where gene and target agree; reading the target
  beyond its end panics. The fitness is the float64 quotient of the count by the length.
\<close>

function score_loop :: "8 word list \<Rightarrow> 8 word list \<Rightarrow> nat \<Rightarrow> int \<Rightarrow> panic + int" where
  "score_loop g target i score =
     (if i < length g then
        (if i < length target then
           score_loop g target (Suc i) (if g ! i = target ! i then score + 1 else score)
         else Inl IndexOutOfRange)
      else Inr score)"
  by pat_completeness auto
termination
  by (relation "measure (\<lambda>(g, target, i, score). length g - i)") auto

declare score_loop.simps [simp del]

definition calcFitness :: "DNA \<Rightarrow> 8 word list \<Rightarrow> panic + DNA" where
  "calcFitness d target =
     (case score_loop (Gene d) target 0 0 of
        Inl e \<Rightarrow> Inl e
      | Inr score \<Rightarrow>
          Inr (d\<lparr> Fitness := f64_div (f64_of_int score) (f64_of_int (int (length (Gene d)))) \<rparr>))"




subsection \<open>The pixel program (\<^verbatim>\<open>monalisa/main.go\<close>)\<close>

record RGBA =
  Pix :: "8 word list"
  Stride :: int
  Rect :: "(int \<times> int) \<times> (int \<times> int)"

record Organism =
  DNA :: RGBA
  Fitness :: "64 word"

definition crossover_monalisa ::
  "'s rand_src \<Rightarrow> Organism \<Rightarrow> Organism \<Rightarrow> 's \<Rightarrow> panic + (Organism \<times> 's)" where
  "crossover_monalisa R d1 d2 s =
     (let pix = replicate (length (Pix (DNA d1))) 0;
          child = \<lparr> DNA = \<lparr> Pix = pix, Stride = Stride (DNA d1), Rect = Rect (DNA d1) \<rparr>,
                    Fitness = 0 \<rparr> in
      case rand_Intn R (int (length (Pix (DNA d1)))) s of
        Inl e \<Rightarrow> Inl e
      | Inr (mid, s') \<Rightarrow>
          (case crossover_loop mid (Pix (DNA d1)) (Pix (DNA d2)) 0 (Pix (DNA child)) of
             Inl e \<Rightarrow> Inl e
           | Inr p \<Rightarrow> Inr (child\<lparr> DNA := (DNA child)\<lparr> Pix := p \<rparr> \<rparr>, s')))"

function mutate_loop_monalisa ::
  "'s rand_src \<Rightarrow> f64 \<Rightarrow> nat \<Rightarrow> 8 word list \<Rightarrow> 's \<Rightarrow> 8 word list \<times> 's" where
  "mutate_loop_monalisa R MutationRate i p s =
     (if i < length p then
        (case Float64 R s of (r, s1) \<Rightarrow>
           if f64_less r MutationRate then
             (case Intn R 255 s1 of (v, s2) \<Rightarrow>
                mutate_loop_monalisa R MutationRate (Suc i) (p[i := word_of_int v]) s2)
           else mutate_loop_monalisa R MutationRate (Suc i) p s1)
      else (p, s))"
  by pat_completeness auto
termination
  by (relation "measure (\<lambda>(R, rate, i, p, s). length p - i)") auto

declare mutate_loop_monalisa.simps [simp del]

definition mutate_monalisa :: "'s rand_src \<Rightarrow> f64 \<Rightarrow> Organism \<Rightarrow> 's \<Rightarrow> Organism \<times> 's" where
  "mutate_monalisa R MutationRate o1 s =
     (case mutate_loop_monalisa R MutationRate 0 (Pix (DNA o1)) s of
        (p, s') \<Rightarrow> (o1\<lparr> DNA := (DNA o1)\<lparr> Pix := p \<rparr> \<rparr>, s'))"

text \<open>
  \<^verbatim>\<open>squareDifference\<close> subtracts and multiplies in uint64, both modulo \<open>2\<^sup>6\<^sup>4\<close>.
\<close>

definition squareDifference :: "8 word \<Rightarrow> 8 word \<Rightarrow> 64 word" where
  "squareDifference x y = (let d = (ucast x :: 64 word) - ucast y in d * d)"

text \<open>
  \<^verbatim>\<open>diff\<close> adds the squares in an int64 (modulo \<open>2\<^sup>6\<^sup>4\<close>, read as signed), converts the sum to
  float64, takes \<^verbatim>\<open>math.Sqrt\<close> and converts back. The loop runs over \<^verbatim>\<open>a.Pix\<close> and
  reads \<^verbatim>\<open>b.Pix\<close> at the same index.
\<close>

function diff_loop :: "8 word list \<Rightarrow> 8 word list \<Rightarrow> nat \<Rightarrow> 64 word \<Rightarrow> panic + 64 word" where
  "diff_loop a b i d =
     (if i < length a then
        (if i < length b then diff_loop a b (Suc i) (d + squareDifference (a ! i) (b ! i))
         else Inl IndexOutOfRange)
      else Inr d)"
  by pat_completeness auto
termination
  by (relation "measure (\<lambda>(a, b, i, d). length a - i)") auto

declare diff_loop.simps [simp del]

definition diff :: "(f64 \<Rightarrow> 64 word) \<Rightarrow> RGBA \<Rightarrow> RGBA \<Rightarrow> panic + 64 word" where
  "diff indef a b =
     (case diff_loop (Pix a) (Pix b) 0 0 of
        Inl e \<Rightarrow> Inl e
      | Inr d \<Rightarrow> Inr (int64_of_f64 indef (f64_sqrt (f64_of_int (sint d)))))"

text \<open>
  \<^verbatim>\<open>calcFitness\<close> of the pixel programs, with the assignment of 1 that the next line
  overwrites.
\<close>

definition calcFitness_monalisa ::
  "(f64 \<Rightarrow> 64 word) \<Rightarrow> Organism \<Rightarrow> RGBA \<Rightarrow> panic + Organism" where
  "calcFitness_monalisa indef o1 target =
     (case diff indef (DNA o1) target of
        Inl e \<Rightarrow> Inl e
      | Inr difference \<Rightarrow>
          let o2 = (if difference = 0 then o1\<lparr> Fitness := 1 \<rparr> else o1)
          in Inr (o2\<lparr> Fitness := difference \<rparr>))"

text \<open>
  \<^verbatim>\<open>getBest\<close> starts from \<^verbatim>\<open>best := int64(0)\<close>, \<^verbatim>\<open>index := 0\<close> and moves to every organism
  whose fitness is greater than \<open>best\<close>; \<^verbatim>\<open>population[index]\<close> panics on an empty population.
\<close>

function getBest_loop :: "'a Organism_scheme list \<Rightarrow> nat \<Rightarrow> 64 word \<Rightarrow> nat \<Rightarrow> nat" where
  "getBest_loop population i best index =
     (if i < length population then
        (if best <s Fitness (population ! i)
         then getBest_loop population (Suc i) (Fitness (population ! i)) i
         else getBest_loop population (Suc i) best index)
      else index)"
  by pat_completeness auto
termination
  by (relation "measure (\<lambda>(population, i, best, index). length population - i)") auto

declare getBest_loop.simps [simp del]

definition getBest :: "'a Organism_scheme list \<Rightarrow> panic + 'a Organism_scheme" where
  "getBest population =
     (let index = getBest_loop population 0 0 0 in
      if index < length population then Inr (population ! index) else Inl IndexOutOfRange)"

text \<open>
  \<^verbatim>\<open>createPool\<close> of \<^verbatim>\<open>monalisa/main.go\<close>. \<open>PoolSize\<close> is a global variable of the program,
  here an argument. \<^verbatim>\<open>sort.SliceStable\<close> sorts the caller's slice in place by the signed
  fitness; a stable sort has one result, the one \<open>sort_key\<close> computes. The function
  returns the pool and the population as the call leaves it. The organisms may carry more
  fields (the triangle and circle programs add the shapes), hence the record scheme.
\<close>

function pool_loop_monalisa ::
  "int \<Rightarrow> 'a Organism_scheme list \<Rightarrow> nat \<Rightarrow> 'a Organism_scheme list
     \<Rightarrow> panic + 'a Organism_scheme list" where
  "pool_loop_monalisa PoolSize top' i pool =
     (if int i < int (length top') - 1 then
        (if 0 \<le> PoolSize \<and> PoolSize < int (length top') then
           let num = (Fitness (top' ! nat PoolSize) - Fitness (top' ! i)) * 10
           in pool_loop_monalisa PoolSize top' (Suc i) (append_n 0 (sint num) (top' ! i) pool)
         else Inl IndexOutOfRange)
      else Inr pool)"
  by pat_completeness auto
termination
  by (relation "measure (\<lambda>(PoolSize, top', i, pool). length top' - i)") auto

declare pool_loop_monalisa.simps [simp del]

definition createPool_monalisa ::
  "int \<Rightarrow> 'a Organism_scheme list \<Rightarrow> RGBA
     \<Rightarrow> panic + ('a Organism_scheme list \<times> 'a Organism_scheme list)" where
  "createPool_monalisa PoolSize population target =
     (let population' = sort_key (\<lambda>x. sint (Fitness x)) population in
      if PoolSize + 1 < 0 \<or> int (length population') < PoolSize + 1
      then Inl SliceBoundsOutOfRange
      else
        (case pool_loop_monalisa PoolSize (take (nat (PoolSize + 1)) population') 0 [] of
           Inl e \<Rightarrow> Inl e
         | Inr pool \<Rightarrow> Inr (pool, population')))"

subsection \<open>The triangle and circle programs\<close>

text \<open>
  Their \<^verbatim>\<open>createPool\<close> returns the whole (sorted) population when the first and the last
  organism of \<^verbatim>\<open>top\<close> have the same fitness, and does not scale the number of copies.
\<close>

function pool_loop_triangles ::
  "int \<Rightarrow> 'a Organism_scheme list \<Rightarrow> nat \<Rightarrow> 'a Organism_scheme list
     \<Rightarrow> panic + 'a Organism_scheme list" where
  "pool_loop_triangles PoolSize top' i pool =
     (if int i < int (length top') - 1 then
        (if 0 \<le> PoolSize \<and> PoolSize < int (length top') then
           let num = Fitness (top' ! nat PoolSize) - Fitness (top' ! i)
           in pool_loop_triangles PoolSize top' (Suc i) (append_n 0 (sint num) (top' ! i) pool)
         else Inl IndexOutOfRange)
      else Inr pool)"
  by pat_completeness auto
termination
  by (relation "measure (\<lambda>(PoolSize, top', i, pool). length top' - i)") auto

declare pool_loop_triangles.simps [simp del]

definition createPool_triangles ::
  "int \<Rightarrow> 'a Organism_scheme list \<Rightarrow> RGBA
     \<Rightarrow> panic + ('a Organism_scheme list \<times> 'a Organism_scheme list)" where
  "createPool_triangles PoolSize population target =
     (let population' = sort_key (\<lambda>x. sint (Fitness x)) population in
      if PoolSize + 1 < 0 \<or> int (length population') < PoolSize + 1
      then Inl SliceBoundsOutOfRange
      else
        let top' = take (nat (PoolSize + 1)) population' in
        if length top' = 0 then Inl IndexOutOfRange
        else if Fitness (top' ! (length top' - 1)) - Fitness (top' ! 0) = 0
        then Inr (population', population')
        else
          (case pool_loop_triangles PoolSize top' 0 [] of
             Inl e \<Rightarrow> Inl e
           | Inr pool \<Rightarrow> Inr (pool, population')))"

section \<open>The quantities the specification names\<close>

text \<open>
  The sum over all byte positions of the squared difference, the number of positions at
  which gene and target agree, that number divided by the length in float64, and \<open>\<lfloor>(fitness / maxFitness) \<times> 100\<rfloor>\<close> evaluated in
  float64 (defined when that value is a finite number).
\<close>

definition sum_squares :: "8 word list \<Rightarrow> 8 word list \<Rightarrow> int" where
  "sum_squares a b = (\<Sum>(x, y)\<leftarrow>zip a b. (uint x - uint y) * (uint x - uint y))"

definition match_count :: "8 word list \<Rightarrow> 8 word list \<Rightarrow> nat" where
  "match_count g target = length (filter (\<lambda>(x, y). x = y) (zip g target))"

definition match_fitness :: "8 word list \<Rightarrow> 8 word list \<Rightarrow> f64" where
  "match_fitness g target =
     f64_div (f64_of_int (int (match_count g target))) (f64_of_int (int (length g)))"


section \<open>Sample values\<close>

definition blank :: RGBA where
  "blank = \<lparr> Pix = [], Stride = 0, Rect = ((0, 0), (0, 0)) \<rparr>"

definition image_of :: "8 word list \<Rightarrow> RGBA" where
  "image_of pix = \<lparr> Pix = pix, Stride = 0, Rect = ((0, 0), (0, 0)) \<rparr>"

definition organism_with :: "64 word \<Rightarrow> Organism" where
  "organism_with f = \<lparr> DNA = blank, Fitness = f \<rparr>"

definition organism_of :: "8 word list \<Rightarrow> Organism" where
  "organism_of pix = \<lparr> DNA = image_of pix, Fitness = 0 \<rparr>"

definition dna_of :: "8 word list \<Rightarrow> DNA" where
  "dna_of g = \<lparr> Gene = g, Fitness = Fin 0 \<rparr>"

section \<open>Properties\<close>

subsection \<open>Crossover keeps the length and cuts at one index\<close>

lemma crossover_loop_ok:
  "length child = length g1 \<Longrightarrow> length g1 \<le> length g2 \<Longrightarrow>
   \<exists>c. crossover_loop mid g1 g2 i child = Inr c \<and> length c = length g1 \<and>
     (\<forall>j<length g1. c ! j = (if j < i then child ! j else if mid < int j then g1 ! j else g2 ! j))"
proof (induction mid g1 g2 i child rule: crossover_loop.induct)
  case (1 mid g1 g2 i child)
  show ?case
  proof (cases "i < length g1")
    case False
    then show ?thesis by (simp add: crossover_loop.simps [of mid g1 g2 i child] "1.prems")
  next
    case True
    show ?thesis
    proof (cases "mid < int i")
      case m: True
      from "1.IH"(1) [OF True m] "1.prems"
      obtain c where c: "crossover_loop mid g1 g2 (Suc i) (child[i := g1 ! i]) = Inr c"
        "length c = length g1"
        "\<forall>j<length g1. c ! j = (if j < Suc i then child[i := g1 ! i] ! j else if mid < int j then g1 ! j else g2 ! j)"
        by auto
      have "crossover_loop mid g1 g2 i child = Inr c"
        using True m c(1) by (simp add: crossover_loop.simps [of mid g1 g2 i child])
      moreover have "\<forall>j<length g1. c ! j = (if j < i then child ! j else if mid < int j then g1 ! j else g2 ! j)"
        using c(3) m "1.prems"(1) by (auto simp: nth_list_update less_Suc_eq)
      ultimately show ?thesis using c(2) by blast
    next
      case m: False
      have i2: "i < length g2" using True "1.prems" by simp
      from "1.IH"(2) [OF True m i2] "1.prems"
      obtain c where c: "crossover_loop mid g1 g2 (Suc i) (child[i := g2 ! i]) = Inr c"
        "length c = length g1"
        "\<forall>j<length g1. c ! j = (if j < Suc i then child[i := g2 ! i] ! j else if mid < int j then g1 ! j else g2 ! j)"
        by auto
      have "crossover_loop mid g1 g2 i child = Inr c"
        using True m i2 c(1) by (simp add: crossover_loop.simps [of mid g1 g2 i child])
      moreover have "\<forall>j<length g1. c ! j = (if j < i then child ! j else if mid < int j then g1 ! j else g2 ! j)"
        using c(3) m "1.prems"(1) by (auto simp: nth_list_update less_Suc_eq)
      ultimately show ?thesis using c(2) by blast
    qed
  qed
qed

lemma crossover_loop_cut:
  assumes "length g1 = length g2"
  shows "\<exists>c. crossover_loop mid g1 g2 0 (replicate (length g1) z) = Inr c \<and> length c = length g1 \<and>
     (\<forall>j<length g1. c ! j = (if int j \<le> mid then g2 ! j else g1 ! j))"
  using crossover_loop_ok [of "replicate (length g1) z" g1 g2 mid 0] assms
  by (auto simp: not_less)

lemma rand_ok_counter_src: "rand_ok counter_src"
  by (simp add: rand_ok_def counter_src_def unit_interval_def)

text \<open>
  C6. For parents of the same positive length, \<^verbatim>\<open>crossover\<close> draws one index \<open>m\<close> with
  \<^verbatim>\<open>rand.Intn(length)\<close>, which lies in \<open>[0, length)\<close>, and returns a child of the parents'
  length whose positions \<open>\<le> m\<close> come from the second parent and whose positions \<open>> m\<close>
  come from the first. This holds for the byte genes of the string program and for the
  pixels of \<^verbatim>\<open>monalisa/main.go\<close>. That the draw is uniform is the contract of \<^verbatim>\<open>rand.Intn\<close>.
\<close>

theorem crossover_single_point:
  assumes "rand_ok R"
    and "length (Gene a) = length (Gene b)" and "0 < length (Gene a)"
    and "length (Pix (DNA o1)) = length (Pix (DNA o2))" and "0 < length (Pix (DNA o1))"
  shows "(\<exists>m c s'. Intn R (int (length (Gene a))) s = (m, s') \<and> 0 \<le> m \<and> m < int (length (Gene a)) \<and>
           crossover R a b s = Inr (c, s') \<and>
           length (Gene c) = length (Gene a) \<and> length (Gene c) = length (Gene b) \<and>
           (\<forall>i<length (Gene a). Gene c ! i = (if int i \<le> m then Gene b ! i else Gene a ! i)))
       \<and>
       (\<exists>m c s'. Intn R (int (length (Pix (DNA o1)))) t = (m, s') \<and> 0 \<le> m \<and> m < int (length (Pix (DNA o1))) \<and>
           crossover_monalisa R o1 o2 t = Inr (c, s') \<and>
           length (Pix (DNA c)) = length (Pix (DNA o1)) \<and> length (Pix (DNA c)) = length (Pix (DNA o2)) \<and>
           (\<forall>i<length (Pix (DNA o1)). Pix (DNA c) ! i = (if int i \<le> m then Pix (DNA o2) ! i else Pix (DNA o1) ! i)))"
proof (rule conjI)
  obtain m s' where ms: "Intn R (int (length (Gene a))) s = (m, s')" by (cases "Intn R (int (length (Gene a))) s")
  have mb: "0 \<le> m \<and> m < int (length (Gene a))"
    using assms(1,3) ms unfolding rand_ok_def by (metis fst_conv of_nat_0_less_iff)
  obtain g where g: "crossover_loop m (Gene a) (Gene b) 0 (replicate (length (Gene a)) 0) = Inr g"
    "length g = length (Gene a)" "\<forall>j<length (Gene a). g ! j = (if int j \<le> m then Gene b ! j else Gene a ! j)"
    using crossover_loop_cut [OF assms(2), of m 0] by blast
  have "crossover R a b s = Inr (\<lparr> Gene = g, Fitness = Fin 0 \<rparr>, s')"
    using assms(3) ms g(1) by (simp add: crossover_def rand_Intn_def)
  then show "\<exists>m c s'. Intn R (int (length (Gene a))) s = (m, s') \<and> 0 \<le> m \<and> m < int (length (Gene a)) \<and>
           crossover R a b s = Inr (c, s') \<and>
           length (Gene c) = length (Gene a) \<and> length (Gene c) = length (Gene b) \<and>
           (\<forall>i<length (Gene a). Gene c ! i = (if int i \<le> m then Gene b ! i else Gene a ! i))"
    using ms mb g(2,3) assms(2) by auto
next
  let ?n = "length (Pix (DNA o1))"
  obtain m s' where ms: "Intn R (int ?n) t = (m, s')" by (cases "Intn R (int ?n) t")
  have mb: "0 \<le> m \<and> m < int ?n"
    using assms(1,5) ms unfolding rand_ok_def by (metis fst_conv of_nat_0_less_iff)
  obtain g where g: "crossover_loop m (Pix (DNA o1)) (Pix (DNA o2)) 0 (replicate ?n 0) = Inr g"
    "length g = ?n" "\<forall>j<?n. g ! j = (if int j \<le> m then Pix (DNA o2) ! j else Pix (DNA o1) ! j)"
    using crossover_loop_cut [OF assms(4), of m 0] by blast
  have "crossover_monalisa R o1 o2 t =
      Inr (\<lparr> DNA = \<lparr> Pix = g, Stride = Stride (DNA o1), Rect = Rect (DNA o1) \<rparr>, Fitness = 0 \<rparr>, s')"
    using assms(5) ms g(1) by (simp add: crossover_monalisa_def rand_Intn_def)
  then show "\<exists>m c s'. Intn R (int ?n) t = (m, s') \<and> 0 \<le> m \<and> m < int ?n \<and>
           crossover_monalisa R o1 o2 t = Inr (c, s') \<and>
           length (Pix (DNA c)) = ?n \<and> length (Pix (DNA c)) = length (Pix (DNA o2)) \<and>
           (\<forall>i<?n. Pix (DNA c) ! i = (if int i \<le> m then Pix (DNA o2) ! i else Pix (DNA o1) ! i))"
    using ms mb g(2,3) assms(4) by auto
qed

lemma crossover_example:
  "crossover counter_src (dna_of [1, 2, 3]) (dna_of [4, 5, 6]) (Suc 0) = Inr (dna_of [4, 5, 3], 2)"
  "crossover_monalisa counter_src (organism_of [7, 8]) (organism_of [9, 10]) (Suc 0)
     = Inr (organism_of [9, 10], 2)"
  by (simp_all add: crossover_def crossover_monalisa_def rand_Intn_def counter_src_def
      crossover_loop.simps dna_of_def organism_of_def image_of_def)

theorem crossover_single_point_witness:
  "rand_ok counter_src \<and>
   length (Gene (dna_of [1, 2, 3])) = length (Gene (dna_of [4, 5, 6])) \<and>
   0 < length (Gene (dna_of [1, 2, 3])) \<and>
   length (Pix (DNA (organism_of [7, 8]))) = length (Pix (DNA (organism_of [9, 10]))) \<and>
   0 < length (Pix (DNA (organism_of [7, 8]))) \<and>
   (\<exists>m c s'. Intn counter_src (int (length (Gene (dna_of [1, 2, 3])))) (Suc 0) = (m, s') \<and>
      0 \<le> m \<and> m < int (length (Gene (dna_of [1, 2, 3]))) \<and>
      crossover counter_src (dna_of [1, 2, 3]) (dna_of [4, 5, 6]) (Suc 0) = Inr (c, s') \<and>
      length (Gene c) = length (Gene (dna_of [1, 2, 3])) \<and>
      length (Gene c) = length (Gene (dna_of [4, 5, 6])) \<and>
      (\<forall>i<length (Gene (dna_of [1, 2, 3])).
          Gene c ! i = (if int i \<le> m then Gene (dna_of [4, 5, 6]) ! i
                        else Gene (dna_of [1, 2, 3]) ! i))) \<and>
   (\<exists>m c s'. Intn counter_src (int (length (Pix (DNA (organism_of [7, 8]))))) (Suc 0) = (m, s') \<and>
      0 \<le> m \<and> m < int (length (Pix (DNA (organism_of [7, 8])))) \<and>
      crossover_monalisa counter_src (organism_of [7, 8]) (organism_of [9, 10]) (Suc 0)
        = Inr (c, s') \<and>
      length (Pix (DNA c)) = length (Pix (DNA (organism_of [7, 8]))) \<and>
      length (Pix (DNA c)) = length (Pix (DNA (organism_of [9, 10]))) \<and>
      (\<forall>i<length (Pix (DNA (organism_of [7, 8]))).
          Pix (DNA c) ! i = (if int i \<le> m then Pix (DNA (organism_of [9, 10])) ! i
                             else Pix (DNA (organism_of [7, 8])) ! i)))"
proof -
  have h2: "length (Gene (dna_of [1, 2, 3])) = length (Gene (dna_of [4, 5, 6]))"
    and h3: "0 < length (Gene (dna_of [1, 2, 3]))"
    and h4: "length (Pix (DNA (organism_of [7, 8]))) = length (Pix (DNA (organism_of [9, 10])))"
    and h5: "0 < length (Pix (DNA (organism_of [7, 8])))"
    by (simp_all add: dna_of_def organism_of_def image_of_def)
  from crossover_single_point [OF rand_ok_counter_src h2 h3 h4 h5, of "Suc 0" "Suc 0"]
    rand_ok_counter_src h2 h3 h4 h5
  show ?thesis by blast
qed

subsection \<open>Mutation at rate zero\<close>

lemma unit_interval_not_less_zero: "unit_interval r \<Longrightarrow> \<not> f64_less r (Fin 0)"
  by (cases r) (auto simp: unit_interval_def)

lemma mutate_loop_rate_zero:
  "rand_ok R \<Longrightarrow> fst (mutate_loop R (Fin 0) i g s) = g"
proof (induction R "Fin 0" i g s rule: mutate_loop.induct)
  case (1 R i g s)
  show ?case
  proof (cases "i < length g")
    case False
    then show ?thesis by (simp add: mutate_loop.simps [of R "Fin 0" i g s])
  next
    case True
    obtain r s1 where rs: "Float64 R s = (r, s1)" by (cases "Float64 R s")
    have "unit_interval r" using "1.prems" rs unfolding rand_ok_def by (metis fst_conv)
    then have nl: "\<not> f64_less r (Fin 0)" by (rule unit_interval_not_less_zero)
    have "fst (mutate_loop R (Fin 0) (Suc i) g s1) = g"
      using "1.hyps"(2) [OF True rs [symmetric] nl] "1.prems" by simp
    then show ?thesis
      using True rs nl by (simp add: mutate_loop.simps [of R "Fin 0" i g s])
  qed
qed

lemma mutate_loop_monalisa_rate_zero:
  "rand_ok R \<Longrightarrow> fst (mutate_loop_monalisa R (Fin 0) i p s) = p"
proof (induction R "Fin 0" i p s rule: mutate_loop_monalisa.induct)
  case (1 R i p s)
  show ?case
  proof (cases "i < length p")
    case False
    then show ?thesis by (simp add: mutate_loop_monalisa.simps [of R "Fin 0" i p s])
  next
    case True
    obtain r s1 where rs: "Float64 R s = (r, s1)" by (cases "Float64 R s")
    have "unit_interval r" using "1.prems" rs unfolding rand_ok_def by (metis fst_conv)
    then have nl: "\<not> f64_less r (Fin 0)" by (rule unit_interval_not_less_zero)
    have "fst (mutate_loop_monalisa R (Fin 0) (Suc i) p s1) = p"
      using "1.hyps"(2) [OF True rs [symmetric] nl] "1.prems" by simp
    then show ?thesis
      using True rs nl by (simp add: mutate_loop_monalisa.simps [of R "Fin 0" i p s])
  qed
qed

text \<open>
  C8. With \<open>MutationRate = 0\<close> no draw of \<^verbatim>\<open>rand.Float64()\<close>, which is never negative, is
  below the rate: \<^verbatim>\<open>mutate\<close> returns the organism it was given, in both programs, and so the
  child of \<^verbatim>\<open>crossover\<close> followed by \<^verbatim>\<open>mutate\<close> is the child of \<^verbatim>\<open>crossover\<close>.
\<close>

theorem mutate_rate_zero_identity:
  assumes "rand_ok R"
  shows "fst (mutate R (Fin 0) d s) = d \<and>
         fst (mutate_monalisa R (Fin 0) o1 t) = o1 \<and>
         (crossover R a b s0 = Inr (c, s1) \<longrightarrow> fst (mutate R (Fin 0) c s1) = c) \<and>
         (crossover_monalisa R o2 o3 t0 = Inr (c', t1) \<longrightarrow> fst (mutate_monalisa R (Fin 0) c' t1) = c')"
proof -
  have A: "fst (mutate R (Fin 0) d s) = d" for d s
    using mutate_loop_rate_zero [OF assms, of 0 "Gene d" s]
    by (cases "mutate_loop R (Fin 0) 0 (Gene d) s") (simp add: mutate_def)
  have B: "fst (mutate_monalisa R (Fin 0) o1 t) = o1" for o1 t
    using mutate_loop_monalisa_rate_zero [OF assms, of 0 "Pix (DNA o1)" t]
    by (cases "mutate_loop_monalisa R (Fin 0) 0 (Pix (DNA o1)) t") (simp add: mutate_monalisa_def)
  show ?thesis using A B by simp
qed

theorem mutate_rate_zero_identity_witness:
  "rand_ok counter_src \<and>
   crossover counter_src (dna_of [1, 2, 3]) (dna_of [4, 5, 6]) (Suc 0) = Inr (dna_of [4, 5, 3], 2) \<and>
   fst (mutate counter_src (Fin 0) (dna_of [4, 5, 3]) 2) = dna_of [4, 5, 3] \<and>
   crossover_monalisa counter_src (organism_of [7, 8]) (organism_of [9, 10]) (Suc 0)
     = Inr (organism_of [9, 10], 2) \<and>
   fst (mutate_monalisa counter_src (Fin 0) (organism_of [9, 10]) 2) = organism_of [9, 10]"
  using mutate_rate_zero_identity [OF rand_ok_counter_src,
      of "dna_of [4, 5, 3]" 2 "organism_of [9, 10]" 2
         "dna_of [1, 2, 3]" "dna_of [4, 5, 6]" "Suc 0" "dna_of [4, 5, 3]" 2
         "organism_of [7, 8]" "organism_of [9, 10]" "Suc 0" "organism_of [9, 10]" 2]
    rand_ok_counter_src crossover_example
  by blast

subsection \<open>The pools of the pixel programs\<close>

lemma append_n_replicate: "append_n n num x pool = pool @ replicate (nat (num - n)) x"
proof (induction n num x pool rule: append_n.induct)
  case (1 n num x pool)
  show ?case
  proof (cases "n < num")
    case False
    then show ?thesis by (simp add: append_n.simps [of n num x pool])
  next
    case True
    then have "nat (num - n) = Suc (nat (num - (n + 1)))" by simp
    then show ?thesis
      using True "1.IH" [OF True]
      by (simp add: append_n.simps [of n num x pool] replicate_append_same)
  qed
qed

lemma pool_loop_monalisa_Inr:
  "int (length top') - 1 \<le> int i \<or> (0 \<le> PoolSize \<and> PoolSize < int (length top')) \<Longrightarrow>
   \<exists>p. pool_loop_monalisa PoolSize top' i pool = Inr p"
proof (induction PoolSize top' i pool rule: pool_loop_monalisa.induct)
  case (1 PoolSize top' i pool)
  show ?case
  proof (cases "int i < int (length top') - 1")
    case False
    then show ?thesis by (simp add: pool_loop_monalisa.simps [of PoolSize top' i pool])
  next
    case True
    with "1.prems" have b: "0 \<le> PoolSize \<and> PoolSize < int (length top')" by simp
    from "1.IH" [OF True b refl] b show ?thesis
      using True by (simp add: pool_loop_monalisa.simps [of PoolSize top' i pool] Let_def)
  qed
qed

lemma pool_loop_triangles_Inr:
  "int (length top') - 1 \<le> int i \<or> (0 \<le> PoolSize \<and> PoolSize < int (length top')) \<Longrightarrow>
   \<exists>p. pool_loop_triangles PoolSize top' i pool = Inr p"
proof (induction PoolSize top' i pool rule: pool_loop_triangles.induct)
  case (1 PoolSize top' i pool)
  show ?case
  proof (cases "int i < int (length top') - 1")
    case False
    then show ?thesis by (simp add: pool_loop_triangles.simps [of PoolSize top' i pool])
  next
    case True
    with "1.prems" have b: "0 \<le> PoolSize \<and> PoolSize < int (length top')" by simp
    from "1.IH" [OF True b refl] b show ?thesis
      using True by (simp add: pool_loop_triangles.simps [of PoolSize top' i pool] Let_def)
  qed
qed

lemma createPool_monalisa_in_bounds:
  assumes "0 \<le> PoolSize" "PoolSize < int (length population)"
  shows "\<exists>pool. createPool_monalisa PoolSize population target =
           Inr (pool, sort_key (\<lambda>x. sint (Fitness x)) population)"
proof -
  let ?s = "sort_key (\<lambda>x. sint (Fitness x)) population"
  have len: "int (length (take (nat (PoolSize + 1)) ?s)) = PoolSize + 1"
    using assms by simp
  obtain p where "pool_loop_monalisa PoolSize (take (nat (PoolSize + 1)) ?s) 0 [] = Inr p"
    using pool_loop_monalisa_Inr [of "take (nat (PoolSize + 1)) ?s" 0 PoolSize "[]"] len assms
    by auto
  then show ?thesis using assms by (simp add: createPool_monalisa_def Let_def)
qed

lemma createPool_triangles_in_bounds:
  assumes "0 \<le> PoolSize" "PoolSize < int (length population)"
  shows "\<exists>pool. createPool_triangles PoolSize population target =
           Inr (pool, sort_key (\<lambda>x. sint (Fitness x)) population)"
proof -
  let ?s = "sort_key (\<lambda>x. sint (Fitness x)) population"
  let ?t = "take (nat (PoolSize + 1)) ?s"
  have len: "int (length ?t) = PoolSize + 1"
    using assms by simp
  then have ne: "length ?t \<noteq> 0" using assms by linarith
  have "length ?s = length population" by simp
  with assms have "0 < length ?s" by linarith
  then have sne: "?s \<noteq> []" by blast
  obtain p where p: "pool_loop_triangles PoolSize ?t 0 [] = Inr p"
    using pool_loop_triangles_Inr [of ?t 0 PoolSize "[]"] len assms
    by auto
  show ?thesis
  proof (cases "Fitness (?t ! (length ?t - 1)) - Fitness (?t ! 0) = 0")
    case True
    then show ?thesis using assms ne sne by (simp add: createPool_triangles_def Let_def)
  next
    case False
    then show ?thesis using assms ne sne p by (simp add: createPool_triangles_def Let_def)
  qed
qed

text \<open>
  C9. \<^verbatim>\<open>createPool\<close> takes \<^verbatim>\<open>population[0 : PoolSize+1]\<close> of the sorted population and reads
  it at the indices 0 to \<open>PoolSize\<close>. When \<open>PoolSize + 1\<close> exceeds the size of the
  population the slice expression panics; when \<open>0 < PoolSize < size\<close> the call returns,
  so no access is out of range. This holds for \<^verbatim>\<open>monalisa/main.go\<close> and for the triangle
  and circle programs.
\<close>

theorem createPool_slice_bounds:
  "(int (length population) < PoolSize + 1 \<longrightarrow>
      createPool_monalisa PoolSize population target = Inl SliceBoundsOutOfRange \<and>
      createPool_triangles PoolSize population target = Inl SliceBoundsOutOfRange) \<and>
   (0 < PoolSize \<and> PoolSize < int (length population) \<longrightarrow>
      (\<exists>r. createPool_monalisa PoolSize population target = Inr r) \<and>
      (\<exists>r. createPool_triangles PoolSize population target = Inr r))"
proof (intro conjI impI)
  assume "int (length population) < PoolSize + 1"
  then show "createPool_monalisa PoolSize population target = Inl SliceBoundsOutOfRange"
    and "createPool_triangles PoolSize population target = Inl SliceBoundsOutOfRange"
    by (simp_all add: createPool_monalisa_def createPool_triangles_def)
next
  assume a: "0 < PoolSize \<and> PoolSize < int (length population)"
  then show "\<exists>r. createPool_monalisa PoolSize population target = Inr r"
    using createPool_monalisa_in_bounds [of PoolSize population target] by auto
  from a show "\<exists>r. createPool_triangles PoolSize population target = Inr r"
    using createPool_triangles_in_bounds [of PoolSize population target] by auto
qed

theorem createPool_slice_bounds_witness:
  "int (length [organism_with 9, organism_with 5]) < 2 + 1 \<and>
   createPool_monalisa 2 [organism_with 9, organism_with 5] blank = Inl SliceBoundsOutOfRange \<and>
   createPool_triangles 2 [organism_with 9, organism_with 5] blank = Inl SliceBoundsOutOfRange \<and>
   (0 < (1::int) \<and> 1 < int (length [organism_with 9, organism_with 5])) \<and>
   (\<exists>r. createPool_monalisa 1 [organism_with 9, organism_with 5] blank = Inr r) \<and>
   (\<exists>r. createPool_triangles 1 [organism_with 9, organism_with 5] blank = Inr r)"
  using createPool_slice_bounds [of "[organism_with 9, organism_with 5]" 2 blank]
    createPool_slice_bounds [of "[organism_with 9, organism_with 5]" 1 blank]
  by simp

lemma createPool_monalisa_population:
  "createPool_monalisa PoolSize population target = Inr (pool, population') \<Longrightarrow>
   population' = sort_key (\<lambda>x. sint (Fitness x)) population"
  by (auto simp: createPool_monalisa_def Let_def split: if_splits sum.splits)

lemma createPool_triangles_population:
  "createPool_triangles PoolSize population target = Inr (pool, population') \<Longrightarrow>
   population' = sort_key (\<lambda>x. sint (Fitness x)) population"
  by (auto simp: createPool_triangles_def Let_def split: if_splits sum.splits)

text \<open>
  C10. \<^verbatim>\<open>createPool\<close> of the pixel programs sorts the caller's population in place: when the
  call returns, the population holds the same organisms as before, each as often as
  before and unchanged, in an order in which the (signed) fitness never decreases.
\<close>

theorem createPool_sorts_in_place:
  "(createPool_monalisa PoolSize population target = Inr (pool, population') \<longrightarrow>
      mset population' = mset population \<and> sorted (map (\<lambda>x. sint (Fitness x)) population')) \<and>
   (createPool_triangles PoolSize population target = Inr (pool, population') \<longrightarrow>
      mset population' = mset population \<and> sorted (map (\<lambda>x. sint (Fitness x)) population'))"
  using createPool_monalisa_population [of PoolSize population target pool population']
    createPool_triangles_population [of PoolSize population target pool population']
  by auto

theorem createPool_sorts_in_place_witness:
  "createPool_monalisa 1 [organism_with 9, organism_with 5] blank =
     Inr (replicate 40 (organism_with 5), [organism_with 5, organism_with 9]) \<and>
   createPool_triangles 1 [organism_with 9, organism_with 5] blank =
     Inr (replicate 4 (organism_with 5), [organism_with 5, organism_with 9]) \<and>
   mset [organism_with 5, organism_with 9] = mset [organism_with 9, organism_with 5] \<and>
   sorted (map (\<lambda>x. sint (Fitness x)) [organism_with 5, organism_with 9])"
proof -
  have m: "createPool_monalisa 1 [organism_with 9, organism_with 5] blank =
     Inr (replicate 40 (organism_with 5), [organism_with 5, organism_with 9])"
    by (simp add: createPool_monalisa_def pool_loop_monalisa.simps append_n_replicate
        organism_with_def)
  have t: "createPool_triangles 1 [organism_with 9, organism_with 5] blank =
     Inr (replicate 4 (organism_with 5), [organism_with 5, organism_with 9])"
    by (simp add: createPool_triangles_def pool_loop_triangles.simps append_n_replicate
        organism_with_def)
  show ?thesis
    using createPool_sorts_in_place [of 1 "[organism_with 9, organism_with 5]" blank
        "replicate 40 (organism_with 5)" "[organism_with 5, organism_with 9]"]
      createPool_sorts_in_place [of 1 "[organism_with 9, organism_with 5]" blank
        "replicate 4 (organism_with 5)" "[organism_with 5, organism_with 9]"]
      m t
    by simp
qed

subsection \<open>A converged population\<close>

lemma pool_loop_monalisa_converged:
  "\<forall>x \<in> set top'. Fitness x = f \<Longrightarrow> 0 \<le> PoolSize \<and> PoolSize < int (length top') \<Longrightarrow>
   pool_loop_monalisa PoolSize top' i pool = Inr pool"
proof (induction PoolSize top' i pool rule: pool_loop_monalisa.induct)
  case (1 PoolSize top' i pool)
  show ?case
  proof (cases "int i < int (length top') - 1")
    case False
    then show ?thesis by (simp add: pool_loop_monalisa.simps [of PoolSize top' i pool])
  next
    case True
    have "Fitness (top' ! nat PoolSize) = f" "Fitness (top' ! i) = f"
      using "1.prems" True by (auto simp: nat_less_iff)
    then have z: "append_n 0 (sint ((Fitness (top' ! nat PoolSize) - Fitness (top' ! i)) * 10)) (top' ! i) pool = pool"
      by (simp add: append_n_replicate)
    show ?thesis
      using True "1.prems"(2) "1.IH" [OF True "1.prems"(2) refl "1.prems"] z
      by (simp add: pool_loop_monalisa.simps [of PoolSize top' i pool] Let_def)
  qed
qed

lemma createPool_monalisa_converged:
  assumes "0 \<le> PoolSize" "PoolSize < int (length population)"
    and "\<forall>x \<in> set population. Fitness x = f"
  shows "createPool_monalisa PoolSize population target =
           Inr ([], sort_key (\<lambda>x. sint (Fitness x)) population)"
proof -
  let ?s = "sort_key (\<lambda>x. sint (Fitness x)) population"
  let ?t = "take (nat (PoolSize + 1)) ?s"
  have "set ?t \<subseteq> set population" using set_take_subset [of "nat (PoolSize + 1)" ?s] by simp
  then have a: "\<forall>x \<in> set ?t. Fitness x = f" using assms(3) by blast
  have b: "0 \<le> PoolSize \<and> PoolSize < int (length ?t)" using assms by simp
  have "pool_loop_monalisa PoolSize ?t 0 [] = Inr []"
    by (rule pool_loop_monalisa_converged [OF a b])
  then show ?thesis using assms by (simp add: createPool_monalisa_def Let_def)
qed

lemma pool_loop_triangles_grows:
  "pool_loop_triangles PoolSize top' i pool = Inr p \<Longrightarrow> length pool \<le> length p"
proof (induction PoolSize top' i pool rule: pool_loop_triangles.induct)
  case (1 PoolSize top' i pool)
  show ?case
  proof (cases "int i < int (length top') - 1")
    case False
    then show ?thesis using "1.prems" by (simp add: pool_loop_triangles.simps [of PoolSize top' i pool])
  next
    case True
    show ?thesis
    proof (cases "0 \<le> PoolSize \<and> PoolSize < int (length top')")
      case False
      then have "pool_loop_triangles PoolSize top' i pool = Inl IndexOutOfRange"
        using True by (subst pool_loop_triangles.simps) auto
      then show ?thesis using "1.prems" by simp
    next
      case b: True
      let ?num = "Fitness (top' ! nat PoolSize) - Fitness (top' ! i)"
      have "pool_loop_triangles PoolSize top' (Suc i) (append_n 0 (sint ?num) (top' ! i) pool) = Inr p"
        using True b "1.prems" by (simp add: pool_loop_triangles.simps [of PoolSize top' i pool] Let_def)
      from "1.IH" [OF True b refl this] show ?thesis
        by (simp add: append_n_replicate)
    qed
  qed
qed

lemma sint_diff_nonneg:
  fixes a b :: "64 word"
  assumes "0 \<le> sint b" "sint b \<le> sint a"
  shows "sint (a - b) = sint a - sint b"
proof -
  have "sint a < 2 ^ 63" using sint_lt [of a] by simp
  then have "- (2 ^ 63) \<le> sint a - sint b \<and> sint a - sint b < 2 ^ 63" using assms by linarith
  then show ?thesis
    by (simp add: sint_word_ariths signed_take_bit_int_eq_self)
qed

lemma createPool_triangles_nonempty:
  assumes "0 \<le> PoolSize" "PoolSize < int (length population)"
    and nonneg: "\<forall>x \<in> set population. 0 \<le> sint (Fitness x)"
  shows "\<exists>pool. createPool_triangles PoolSize population target =
             Inr (pool, sort_key (\<lambda>x. sint (Fitness x)) population) \<and> pool \<noteq> [] \<and>
           (Fitness (sort_key (\<lambda>x. sint (Fitness x)) population ! nat PoolSize) =
            Fitness (sort_key (\<lambda>x. sint (Fitness x)) population ! 0) \<longrightarrow>
              pool = sort_key (\<lambda>x. sint (Fitness x)) population)"
proof -
  let ?s = "sort_key (\<lambda>x. sint (Fitness x)) population"
  let ?t = "take (nat (PoolSize + 1)) ?s"
  have ls: "length ?s = length population" by simp
  with assms have "0 < length ?s" by linarith
  then have sne: "?s \<noteq> []" by blast
  have len: "length ?t = nat PoolSize + 1" using assms ls by (simp add: nat_add_distrib)
  have last: "?t ! (length ?t - 1) = ?s ! nat PoolSize" using len by simp
  have first: "?t ! 0 = ?s ! 0" using len by simp
  have nb: "\<not> (PoolSize + 1 < 0 \<or> int (length ?s) < PoolSize + 1)" using assms by simp
  show ?thesis
  proof (cases "Fitness (?s ! nat PoolSize) = Fitness (?s ! 0)")
    case True
    then have "Fitness (?t ! (length ?t - 1)) - Fitness (?t ! 0) = 0" using last first by simp
    then have "createPool_triangles PoolSize population target = Inr (?s, ?s)"
      unfolding createPool_triangles_def Let_def using nb len by simp
    then show ?thesis using sne by simp
  next
    case False
    then have nz: "Fitness (?t ! (length ?t - 1)) - Fitness (?t ! 0) \<noteq> 0" using last first by simp
    have P1: "0 < PoolSize" using False assms(1) by (cases "PoolSize = 0") auto
    have srt: "sorted (map (\<lambda>x. sint (Fitness x)) ?s)" by simp
    have iP: "nat PoolSize < length ?s" using assms ls by simp
    have le: "sint (Fitness (?s ! 0)) \<le> sint (Fitness (?s ! nat PoolSize))"
      using sorted_nth_mono [OF srt, of 0 "nat PoolSize"] iP \<open>0 < length ?s\<close>
      by (simp del: sorted_sort_key)
    have "?s ! 0 \<in> set population" using sne by (metis length_greater_0_conv nth_mem set_sort)
    then have ge0: "0 \<le> sint (Fitness (?s ! 0))" using nonneg by blast
    have "sint (Fitness (?s ! nat PoolSize)) \<noteq> sint (Fitness (?s ! 0))"
      using False word_eq_iff_signed [where ?'a = int] by blast
    then have pos: "0 < sint (Fitness (?s ! nat PoolSize) - Fitness (?s ! 0))"
      using sint_diff_nonneg [OF ge0 le] le by linarith
    have b: "0 \<le> PoolSize \<and> PoolSize < int (length ?t)" using assms len by simp
    obtain p where p: "pool_loop_triangles PoolSize ?t 0 [] = Inr p"
      using pool_loop_triangles_Inr [of ?t 0 PoolSize "[]"] b by blast
    have c: "int 0 < int (length ?t) - 1" using len P1 by simp
    let ?num = "Fitness (?t ! nat PoolSize) - Fitness (?t ! 0)"
    have step: "pool_loop_triangles PoolSize ?t 0 [] =
          pool_loop_triangles PoolSize ?t (Suc 0) (append_n 0 (sint ?num) (?t ! 0) [])"
      using b c by (simp add: pool_loop_triangles.simps [of PoolSize ?t 0 "[]"] Let_def)
    have tP: "?t ! nat PoolSize = ?s ! nat PoolSize" using len by simp
    have "0 < length (append_n 0 (sint ?num) (?t ! 0) [])"
      using pos by (simp add: append_n_replicate tP first)
    moreover have "length (append_n 0 (sint ?num) (?t ! 0) []) \<le> length p"
      using pool_loop_triangles_grows [of PoolSize ?t "Suc 0" _ p] p step by simp
    ultimately have "p \<noteq> []" by auto
    moreover have "createPool_triangles PoolSize population target = Inr (p, ?s)"
      unfolding createPool_triangles_def Let_def using nb len nz p by simp
    ultimately show ?thesis using False by simp
  qed
qed

text \<open>
  C1. The claim asks for a pool that is never empty, and for the whole population as the
  pool when the organisms of the top slice have the same fitness. \<^verbatim>\<open>createPool\<close> of the
  triangle and circle programs does so (\<open>createPool_triangles_nonempty\<close>, for fitness
  values that are not negative, as every computed distance is). \<^verbatim>\<open>createPool\<close> of
  \<^verbatim>\<open>monalisa/main.go\<close> has no such test: on a converged population every organism gets
  zero copies and the pool is empty (\<open>createPool_monalisa_converged\<close>); here for three
  organisms of fitness 7600 and \<open>PoolSize = 2\<close>.
\<close>

theorem createPool_monalisa_empty_pool:
  "createPool_monalisa 2 [organism_with 7600, organism_with 7600, organism_with 7600] blank =
     Inr ([], [organism_with 7600, organism_with 7600, organism_with 7600])"
  using createPool_monalisa_converged
    [of 2 "[organism_with 7600, organism_with 7600, organism_with 7600]" 7600 blank]
  by (simp add: organism_with_def)

subsection \<open>The organism \<^verbatim>\<open>getBest\<close> returns\<close>

lemma getBest_loop_max:
  "index < length population \<Longrightarrow>
   \<forall>j<i. sint (Fitness (population ! j)) \<le> sint best \<Longrightarrow> i \<le> length population \<Longrightarrow>
   getBest_loop population i best index < length population \<and>
   ((getBest_loop population i best index = index \<and>
       (\<forall>j<length population. sint (Fitness (population ! j)) \<le> sint best)) \<or>
    (sint best < sint (Fitness (population ! getBest_loop population i best index)) \<and>
       (\<forall>j<length population. sint (Fitness (population ! j))
           \<le> sint (Fitness (population ! getBest_loop population i best index)))))"
proof (induction population i best index rule: getBest_loop.induct)
  case (1 population i best index)
  show ?case
  proof (cases "i < length population")
    case False
    then have il: "i = length population" using "1.prems" by simp
    have "getBest_loop population i best index = index"
      using False by (subst getBest_loop.simps) simp
    then show ?thesis using "1.prems" il by simp
  next
    case True
    show ?thesis
    proof (cases "best <s Fitness (population ! i)")
      case g: True
      then have lt: "sint best < sint (Fitness (population ! i))" by (simp add: word_sless_alt)
      have eq: "getBest_loop population i best index =
                getBest_loop population (Suc i) (Fitness (population ! i)) i"
        using True g by (simp add: getBest_loop.simps [of population i best index])
      have pre: "\<forall>j<Suc i. sint (Fitness (population ! j)) \<le> sint (Fitness (population ! i))"
        using "1.prems"(2) lt by (auto simp: less_Suc_eq)
      from "1.IH"(1) [OF True g True pre] True
      show ?thesis unfolding eq using lt by auto
    next
      case g: False
      then have le: "sint (Fitness (population ! i)) \<le> sint best" by (simp add: word_sless_alt)
      have eq: "getBest_loop population i best index =
                getBest_loop population (Suc i) best index"
        using True g by (simp add: getBest_loop.simps [of population i best index])
      have pre: "\<forall>j<Suc i. sint (Fitness (population ! j)) \<le> sint best"
        using "1.prems"(2) le by (auto simp: less_Suc_eq)
      from "1.IH"(2) [OF True g "1.prems"(1) pre] True
      show ?thesis unfolding eq by auto
    qed
  qed
qed

lemma getBest_greatest:
  assumes "population \<noteq> []"
  shows "\<exists>x. getBest population = Inr x \<and> x \<in> set population \<and>
           ((x = population ! 0 \<and> (\<forall>y \<in> set population. sint (Fitness y) \<le> 0)) \<or>
            (0 < sint (Fitness x) \<and> (\<forall>y \<in> set population. sint (Fitness y) \<le> sint (Fitness x))))"
proof -
  let ?r = "getBest_loop population 0 0 0"
  have l: "0 < length population" using assms by simp
  from getBest_loop_max [OF l, of 0 0]
  have r: "?r < length population"
    and d: "(?r = 0 \<and> (\<forall>j<length population. sint (Fitness (population ! j)) \<le> 0)) \<or>
       (0 < sint (Fitness (population ! ?r)) \<and>
          (\<forall>j<length population. sint (Fitness (population ! j)) \<le> sint (Fitness (population ! ?r))))"
    by auto
  have g: "getBest population = Inr (population ! ?r)" using r by (simp add: getBest_def)
  have m: "population ! ?r \<in> set population" using r by simp
  from d show ?thesis
  proof
    assume "?r = 0 \<and> (\<forall>j<length population. sint (Fitness (population ! j)) \<le> 0)"
    then have "population ! ?r = population ! 0" "\<forall>y \<in> set population. sint (Fitness y) \<le> 0"
      by (auto simp: in_set_conv_nth)
    then show ?thesis using g m by auto
  next
    assume "0 < sint (Fitness (population ! ?r)) \<and>
          (\<forall>j<length population. sint (Fitness (population ! j)) \<le> sint (Fitness (population ! ?r)))"
    then have "0 < sint (Fitness (population ! ?r))"
      "\<forall>y \<in> set population. sint (Fitness y) \<le> sint (Fitness (population ! ?r))"
      by (auto simp: in_set_conv_nth)
    then show ?thesis using g m by auto
  qed
qed

text \<open>
  C2. In the pixel programs a lower fitness is better, and the claim asks \<^verbatim>\<open>getBest\<close> for
  the organism of least fitness. The loop keeps the organism whose fitness is greater
  than every one before it (\<open>getBest_greatest\<close>): of two organisms at distance 5 and 9
  from the target it returns the one at distance 9.
\<close>

theorem getBest_returns_greatest_distance:
  "getBest [organism_with 5, organism_with 9] = Inr (organism_with 9)"
proof -
  obtain x where x: "getBest [organism_with 5, organism_with 9] = Inr x"
    "x \<in> set [organism_with 5, organism_with 9]"
    "(x = [organism_with 5, organism_with 9] ! 0 \<and>
        (\<forall>y \<in> set [organism_with 5, organism_with 9]. sint (Fitness y) \<le> 0)) \<or>
     (0 < sint (Fitness x) \<and>
        (\<forall>y \<in> set [organism_with 5, organism_with 9]. sint (Fitness y) \<le> sint (Fitness x)))"
    using getBest_greatest [of "[organism_with 5, organism_with 9]"] by blast
  from x(2,3) have "x = organism_with 9" by (auto simp: organism_with_def)
  with x(1) show ?thesis by simp
qed

subsection \<open>Rounding to float64\<close>

lemma pow2_powi: "pow2 e = 2 powi e"
  by (simp add: pow2_def power_int_def inverse_eq_divide power_one_over)

lemma pow2_pos [simp]: "0 < pow2 e"
  by (simp add: pow2_powi)

lemma pow2_nonneg [simp]: "0 \<le> pow2 e"
  using pow2_pos [of e] by (simp only: less_imp_le)

lemma pow2_nonzero [simp]: "pow2 e \<noteq> 0"
  using pow2_pos [of e] by (rule less_imp_neq [symmetric])

lemma pow2_add: "pow2 (a + b) = pow2 a * pow2 b"
  by (simp add: pow2_powi power_int_add)

lemma pow2_mono: "a \<le> b \<Longrightarrow> pow2 a \<le> pow2 b"
  by (simp add: pow2_powi power_int_increasing)

lemma pow2_less_iff: "pow2 a < pow2 b \<longleftrightarrow> a < b"
proof
  assume "pow2 a < pow2 b"
  then show "a < b" using pow2_mono [of b a] by (cases "a < b") auto
next
  assume "a < b"
  then show "pow2 a < pow2 b" by (simp add: pow2_powi power_int_strict_increasing)
qed

lemma pow2_nat: "pow2 (int n) = 2 ^ n"
  by (simp add: pow2_def)

lemma pow2_numeral: "pow2 (numeral k) = 2 ^ numeral k"
  by (simp add: pow2_def)

lemma pow2_zero: "pow2 0 = 1"
  by (simp add: pow2_def)

lemma bitlen_pow2_bounds:
  assumes "0 < a"
  shows "pow2 (bitlen a - 1) \<le> of_int a \<and> (of_int a :: rat) < pow2 (bitlen a)"
proof -
  have b1: "1 \<le> bitlen a" using assms bitlen_eq_zero_iff [of a] bitlen_nonneg [of a]
    by (cases "bitlen a = 0") auto
  from bitlen_bounds [OF assms]
  have "(2::int) ^ nat (bitlen a - 1) \<le> a" "a < 2 ^ nat (bitlen a)" by auto
  then have "(of_int ((2::int) ^ nat (bitlen a - 1)) :: rat) \<le> of_int a"
    "(of_int a :: rat) < of_int (2 ^ nat (bitlen a))"
    by (simp_all only: of_int_le_iff of_int_less_iff)
  then show ?thesis using b1 by (simp add: pow2_def)
qed

lemma ilog2_bounds:
  assumes "0 < q"
  shows "pow2 (ilog2 q) \<le> q \<and> q < pow2 (ilog2 q + 1)"
proof -
  obtain a b where ab: "quotient_of q = (a, b)" by (cases "quotient_of q")
  have bpos: "0 < b" using ab quotient_of_denom_pos by blast
  have q: "q = of_int a / of_int b" using ab quotient_of_div by blast
  have apos: "0 < a" using assms bpos q by (simp add: zero_less_divide_iff)
  define d where "d = bitlen a - bitlen b"
  note A = bitlen_pow2_bounds [OF apos] and B = bitlen_pow2_bounds [OF bpos]
  have bq: "(0::rat) < of_int b" using bpos by simp
  have up: "q < pow2 (d + 1)"
  proof -
    have "of_int a < pow2 (bitlen a)" using A by simp
    also have "pow2 (bitlen a) = pow2 (d + 1) * pow2 (bitlen b - 1)"
      by (simp add: d_def pow2_add [symmetric])
    also have "\<dots> \<le> pow2 (d + 1) * of_int b" using B by simp
    finally show ?thesis using bq by (simp add: q pos_divide_less_eq)
  qed
  have lo: "pow2 (d - 1) \<le> q"
  proof -
    have "pow2 (d - 1) * of_int b \<le> pow2 (d - 1) * pow2 (bitlen b)" using B by simp
    also have "\<dots> = pow2 (bitlen a - 1)" by (simp add: d_def pow2_add [symmetric])
    also have "\<dots> \<le> of_int a" using A by simp
    finally show ?thesis using bq by (simp add: q pos_le_divide_eq)
  qed
  have il: "ilog2 q = (if pow2 d \<le> q then d else d - 1)"
    by (simp add: ilog2_def ab d_def Let_def)
  show ?thesis using up lo il by (cases "pow2 d \<le> q") auto
qed

lemma ilog2_unique:
  assumes "0 < q" "pow2 k \<le> q" "q < pow2 (k + 1)"
  shows "ilog2 q = k"
proof -
  from ilog2_bounds [OF assms(1)] have "pow2 (ilog2 q) < pow2 (k + 1)" "pow2 k < pow2 (ilog2 q + 1)"
    using assms by auto
  then show ?thesis by (simp add: pow2_less_iff)
qed

lemma ilog2_mono:
  assumes "0 < p" "p \<le> q"
  shows "ilog2 p \<le> ilog2 q"
proof -
  have "pow2 (ilog2 p) \<le> p" using ilog2_bounds [OF assms(1)] by simp
  also have "p \<le> q" by fact
  also have "q < pow2 (ilog2 q + 1)" using ilog2_bounds [of q] assms by simp
  finally show ?thesis by (simp add: pow2_less_iff)
qed

lemma round_even_of_int [simp]: "round_even (of_int n) = n"
  by (simp add: round_even_def)

lemma round_even_range: "\<lfloor>x\<rfloor> \<le> round_even x \<and> round_even x \<le> \<lfloor>x\<rfloor> + 1"
  by (simp add: round_even_def Let_def)

lemma round_even_mono:
  assumes "x \<le> y"
  shows "round_even x \<le> round_even y"
proof (cases "\<lfloor>x\<rfloor> = \<lfloor>y\<rfloor>")
  case True
  have "x - of_int \<lfloor>x\<rfloor> \<le> y - of_int \<lfloor>x\<rfloor>" using assms by simp
  then show ?thesis using True by (auto simp: round_even_def Let_def)
next
  case False
  then have "\<lfloor>x\<rfloor> < \<lfloor>y\<rfloor>" using floor_mono [OF assms] by simp
  then show ?thesis using round_even_range [of x] round_even_range [of y] by linarith
qed

lemma round_even_ge: "of_int n \<le> x \<Longrightarrow> n \<le> round_even x"
  using round_even_mono [of "of_int n" x] by simp

lemma round_even_le: "x \<le> of_int n \<Longrightarrow> round_even x \<le> n"
  using round_even_mono [of x "of_int n"] by simp

lemma ulp_exp_pos: "0 < q \<Longrightarrow> ulp_exp q = max (ilog2 q - 52) (- 1074)"
  by (simp add: ulp_exp_def)

lemma pow2_53: "pow2 (e + 53) = pow2 e * 2 ^ 53"
  by (simp add: pow2_add pow2_numeral)

lemma pow2_52: "pow2 (e + 52) = pow2 e * 2 ^ 52"
  by (simp add: pow2_add pow2_numeral)

lemma scaled_less:
  assumes "0 < q"
  shows "q / pow2 (ulp_exp q) < 2 ^ 53"
proof -
  have "q < pow2 (ilog2 q + 1)" using ilog2_bounds [OF assms] by simp
  also have "pow2 (ilog2 q + 1) \<le> pow2 (ulp_exp q + 53)"
    by (rule pow2_mono) (simp add: ulp_exp_pos [OF assms])
  also have "\<dots> = 2 ^ 53 * pow2 (ulp_exp q)" by (simp add: pow2_53)
  finally show ?thesis by (simp add: pos_divide_less_eq)
qed

lemma scaled_ge:
  assumes "0 < q" "- 1074 \<le> ilog2 q - 52"
  shows "2 ^ 52 \<le> q / pow2 (ulp_exp q)"
proof -
  have e: "ulp_exp q = ilog2 q - 52" using assms by (simp add: ulp_exp_pos)
  have "2 ^ 52 * pow2 (ulp_exp q) = pow2 (ulp_exp q + 52)" by (simp add: pow2_52)
  also have "\<dots> = pow2 (ilog2 q)" by (simp add: e)
  also have "\<dots> \<le> q" using ilog2_bounds [OF assms(1)] by simp
  finally show ?thesis by (simp add: pos_le_divide_eq)
qed

lemma mant_le:
  assumes "0 < q"
  shows "round_even (q / pow2 (ulp_exp q)) \<le> 2 ^ 53"
proof -
  have "q / pow2 (ulp_exp q) \<le> of_int (2 ^ 53)" using scaled_less [OF assms] by simp
  then show ?thesis by (rule round_even_le)
qed

lemma mant_ge:
  assumes "0 < q" "- 1074 \<le> ilog2 q - 52"
  shows "2 ^ 52 \<le> round_even (q / pow2 (ulp_exp q))"
proof -
  have "of_int (2 ^ 52) \<le> q / pow2 (ulp_exp q)" using scaled_ge [OF assms] by simp
  then show ?thesis by (rule round_even_ge)
qed

lemma mant_nonneg:
  assumes "0 < q"
  shows "0 \<le> round_even (q / pow2 (ulp_exp q))"
proof -
  have "of_int 0 \<le> q / pow2 (ulp_exp q)" using assms by simp
  then show ?thesis by (rule round_even_ge)
qed

lemma round_grid_nonneg: "0 < q \<Longrightarrow> 0 \<le> round_grid q"
  using mant_nonneg [of q] by (simp add: round_grid_def)

lemma ulp_exp_mono:
  assumes "0 < p" "p \<le> q"
  shows "ulp_exp p \<le> ulp_exp q"
  using ilog2_mono [OF assms] assms by (simp add: ulp_exp_pos)

lemma round_grid_mono:
  assumes "0 < p" "p \<le> q"
  shows "round_grid p \<le> round_grid q"
proof (cases "ulp_exp p = ulp_exp q")
  case True
  have "p / pow2 (ulp_exp q) \<le> q / pow2 (ulp_exp q)"
    using assms(2) by (simp add: divide_right_mono)
  then have "round_even (p / pow2 (ulp_exp q)) \<le> round_even (q / pow2 (ulp_exp q))"
    by (rule round_even_mono)
  then show ?thesis by (simp add: round_grid_def True)
next
  case False
  have qpos: "0 < q" using assms by simp
  have lt: "ulp_exp p < ulp_exp q" using ulp_exp_mono [OF assms] False by simp
  then have normal: "- 1074 \<le> ilog2 q - 52"
    unfolding ulp_exp_pos [OF qpos] ulp_exp_pos [OF assms(1)] by linarith
  have "round_grid p \<le> 2 ^ 53 * pow2 (ulp_exp p)"
  proof -
    have "(of_int (round_even (p / pow2 (ulp_exp p))) :: rat) \<le> of_int (2 ^ 53)"
      using mant_le [OF assms(1)] by (simp only: of_int_le_iff)
    then show ?thesis by (simp add: round_grid_def)
  qed
  also have "\<dots> = pow2 (ulp_exp p + 53)" by (simp add: pow2_53)
  also have "\<dots> \<le> pow2 (ulp_exp q + 52)" by (rule pow2_mono) (use lt in simp)
  also have "\<dots> = 2 ^ 52 * pow2 (ulp_exp q)" by (simp add: pow2_52)
  also have "\<dots> \<le> round_grid q"
  proof -
    have "(of_int (2 ^ 52) :: rat) \<le> of_int (round_even (q / pow2 (ulp_exp q)))"
      using mant_ge [OF qpos normal] by (simp only: of_int_le_iff)
    then show ?thesis by (simp add: round_grid_def)
  qed
  finally show ?thesis .
qed

lemma round_grid_int_exact:
  assumes "0 < n" "n < 2 ^ 53"
  shows "round_grid (of_int n) = of_int n"
proof -
  have pos: "(0::rat) < of_int n" using assms by simp
  have "(of_int n :: rat) < of_int (2 ^ 53)" using assms(2) by (simp only: of_int_less_iff)
  then have "(of_int n :: rat) < pow2 53" by (simp add: pow2_numeral)
  moreover have "pow2 (ilog2 (of_int n)) \<le> of_int n" using ilog2_bounds [OF pos] by simp
  ultimately have "pow2 (ilog2 (of_int n)) < pow2 53" by simp
  then have hi: "ilog2 (of_int n) < 53" by (simp add: pow2_less_iff)
  have "(1::int) \<le> n" using assms(1) by simp
  then have "(of_int (1::int) :: rat) \<le> of_int n" by (simp only: of_int_le_iff)
  then have "pow2 0 \<le> of_int n" by (simp add: pow2_zero)
  moreover have "(of_int n :: rat) < pow2 (ilog2 (of_int n) + 1)" using ilog2_bounds [OF pos] by simp
  ultimately have "pow2 0 < pow2 (ilog2 (of_int n) + 1)" by simp
  then have lo: "0 \<le> ilog2 (of_int n)" by (simp add: pow2_less_iff)
  define k where "k = nat (52 - ilog2 (of_int n))"
  have e: "ulp_exp (of_int n) = - int k" using hi lo by (simp add: ulp_exp_pos [OF pos] k_def)
  have p: "pow2 (- int k) = 1 / 2 ^ k" by (simp add: pow2_def)
  have "of_int n / pow2 (- int k) = (of_int (n * 2 ^ k) :: rat)" by (simp add: p)
  then have "round_even (of_int n / pow2 (- int k)) = n * 2 ^ k" by (simp only: round_even_of_int)
  then show ?thesis by (simp add: round_grid_def e p)
qed

lemma round64_int_exact:
  assumes "0 \<le> n" "n < 2 ^ 53"
  shows "round64 (of_int n) = Fin (of_int n)"
proof (cases "n = 0")
  case True
  then show ?thesis by (simp add: round64_def)
next
  case False
  then have pos: "0 < n" using assms by simp
  have g: "round_grid (of_int n) = of_int n" by (rule round_grid_int_exact [OF pos assms(2)])
  have "(of_int n :: rat) < of_int (2 ^ 53)" using assms(2) by (simp only: of_int_less_iff)
  also have "(of_int (2 ^ 53) :: rat) = pow2 53" by (simp add: pow2_numeral)
  also have "pow2 53 \<le> pow2 1024" by (rule pow2_mono) simp
  finally have "\<not> pow2 1024 \<le> \<bar>of_int n :: rat\<bar>" using pos by simp
  then show ?thesis using pos by (simp add: round64_def g)
qed

lemma f64_of_int_exact: "0 \<le> n \<Longrightarrow> n < 2 ^ 53 \<Longrightarrow> f64_of_int n = Fin (of_int n)"
  by (simp add: f64_of_int_def round64_int_exact)

subsection \<open>The integer square root and \<^verbatim>\<open>math.Sqrt\<close>\<close>

lemma isqrt_correct:
  "0 \<le> n \<Longrightarrow> 0 \<le> isqrt n \<and> isqrt n * isqrt n \<le> n \<and> n < (isqrt n + 1) * (isqrt n + 1)"
proof (induction n rule: isqrt.induct)
  case (1 n)
  show ?case
  proof (cases "n \<le> 0")
    case True
    with "1.prems" have "n = 0" by simp
    then show ?thesis by (simp add: isqrt.simps [of 0])
  next
    case False
    define m where "m = n div 4"
    define r0 where "r0 = isqrt m"
    define t where "t = r0 * r0"
    have m0: "0 \<le> m" using "1.prems" by (simp add: m_def)
    from "1.IH" [OF False] m0
    have ih: "0 \<le> r0" "t \<le> m" "m < (r0 + 1) * (r0 + 1)"
      by (simp_all add: m_def r0_def t_def)
    have sq1: "(r0 + 1) * (r0 + 1) = t + 2 * r0 + 1" by (simp add: t_def algebra_simps)
    have nm: "4 * m \<le> n" "n < 4 * m + 4" by (simp_all add: m_def)
    have a: "(2 * r0) * (2 * r0) = 4 * t" by (simp add: t_def)
    have b: "(2 * r0 + 1) * (2 * r0 + 1) = 4 * t + 4 * r0 + 1" by (simp add: t_def algebra_simps)
    have c: "(2 * r0 + 1 + 1) * (2 * r0 + 1 + 1) = 4 * t + 8 * r0 + 4"
      by (simp add: t_def algebra_simps)
    have unf: "isqrt n = (if (2 * r0 + 1) * (2 * r0 + 1) \<le> n then 2 * r0 + 1 else 2 * r0)"
      using False by (subst isqrt.simps) (simp add: Let_def m_def r0_def)
    show ?thesis
    proof (cases "(2 * r0 + 1) * (2 * r0 + 1) \<le> n")
      case True
      then have e: "isqrt n = 2 * r0 + 1" using unf by simp
      have "n < (2 * r0 + 1 + 1) * (2 * r0 + 1 + 1)" using ih nm sq1 unfolding c by linarith
      then show ?thesis using True ih(1) unfolding e by simp
    next
      case False
      then have e: "isqrt n = 2 * r0" using unf by simp
      have "(2 * r0) * (2 * r0) \<le> n" using ih nm unfolding a by linarith
      then show ?thesis using False ih(1) unfolding e by simp
    qed
  qed
qed

lemma square_less_imp_less:
  fixes a b :: int
  assumes "a * a < b * b" "0 \<le> b"
  shows "a < b"
proof (rule ccontr)
  assume "\<not> a < b"
  then have "b \<le> a" by simp
  then have "b * b \<le> a * a" using assms(2) by (intro mult_mono) auto
  with assms(1) show False by simp
qed

lemma isqrt_ge:
  assumes "0 \<le> k" "k * k \<le> n"
  shows "k \<le> isqrt n"
proof -
  have n0: "0 \<le> n" using assms by (meson order_trans zero_le_square)
  from isqrt_correct [OF n0] have "k * k < (isqrt n + 1) * (isqrt n + 1)" "0 \<le> isqrt n + 1"
    using assms by auto
  then have "k < isqrt n + 1" by (rule square_less_imp_less)
  then show ?thesis by simp
qed

lemma isqrt_less:
  assumes "0 \<le> n" "n < k * k" "0 \<le> k"
  shows "isqrt n < k"
proof -
  from isqrt_correct [OF assms(1)] have "isqrt n * isqrt n < k * k" using assms by auto
  then show ?thesis using assms(3) by (rule square_less_imp_less)
qed

lemma isqrt_unique:
  assumes "0 \<le> k" "k * k \<le> n" "n < (k + 1) * (k + 1)"
  shows "isqrt n = k"
proof -
  have n0: "0 \<le> n" using assms by (meson order_trans zero_le_square)
  have "k \<le> isqrt n" by (rule isqrt_ge [OF assms(1,2)])
  moreover have "isqrt n < k + 1" by (rule isqrt_less [OF n0 assms(3)]) (use assms in simp)
  ultimately show ?thesis by simp
qed

lemma ilog2_int_range:
  assumes "0 < n" "n < 2 ^ k"
  shows "0 \<le> ilog2 (of_int n) \<and> ilog2 (of_int n) < int k"
proof -
  have pos: "(0::rat) < of_int n" using assms by simp
  have "(of_int n :: rat) < of_int (2 ^ k)" using assms(2) by (simp only: of_int_less_iff)
  then have "(of_int n :: rat) < pow2 (int k)" by (simp add: pow2_nat)
  moreover have "pow2 (ilog2 (of_int n)) \<le> of_int n" using ilog2_bounds [OF pos] by simp
  ultimately have "pow2 (ilog2 (of_int n)) < pow2 (int k)" by simp
  then have hi: "ilog2 (of_int n) < int k" by (simp add: pow2_less_iff)
  have "(1::int) \<le> n" using assms(1) by simp
  then have "(of_int (1::int) :: rat) \<le> of_int n" by (simp only: of_int_le_iff)
  then have "pow2 0 \<le> of_int n" by (simp add: pow2_zero)
  moreover have "(of_int n :: rat) < pow2 (ilog2 (of_int n) + 1)" using ilog2_bounds [OF pos] by simp
  ultimately have "pow2 0 < pow2 (ilog2 (of_int n) + 1)" by simp
  then have lo: "0 \<le> ilog2 (of_int n)" by (simp add: pow2_less_iff)
  show ?thesis using lo hi by simp
qed

lemma of_int_less_quarter:
  fixes a b :: int
  shows "(of_int a :: rat) < of_int b + 1 / 4 \<longleftrightarrow> a \<le> b"
proof
  assume "(of_int a :: rat) < of_int b + 1 / 4"
  then have "(of_int a :: rat) < of_int (b + 1)" by simp
  then have "a < b + 1" by (simp only: of_int_less_iff)
  then show "a \<le> b" by simp
next
  assume "a \<le> b"
  then have "(of_int a :: rat) \<le> of_int b" by (simp only: of_int_le_iff)
  then show "(of_int a :: rat) < of_int b + 1 / 4" by simp
qed

lemma quarter_less_of_int:
  fixes a b :: int
  shows "(of_int b :: rat) + 1 / 4 < of_int a \<longleftrightarrow> b < a"
proof
  assume "(of_int b :: rat) + 1 / 4 < of_int a"
  then have "(of_int b :: rat) < of_int a" by simp
  then show "b < a" by (simp only: of_int_less_iff)
next
  assume "b < a"
  then have "b + 1 \<le> a" by simp
  then have "(of_int (b + 1) :: rat) \<le> of_int a" by (simp only: of_int_le_iff)
  then show "(of_int b :: rat) + 1 / 4 < of_int a" by simp
qed

lemma sqrt_round_floor:
  fixes S K P :: int
  assumes K: "0 \<le> K" "K * K \<le> S" "S < (K + 1) * (K + 1)"
    and P: "K + 1 < P"
    and m: "m = isqrt (S * (P * P))"
    and m': "m' = (if S * (P * P) \<le> m * m + m then m else m + 1)"
  shows "K * P \<le> m' \<and> m' < (K + 1) * P"
proof -
  define Y where "Y = S * (P * P)"
  define M where "M = (K + 1) * P"
  have P0: "0 < P" using K(1) P by simp
  have S0: "0 \<le> S" using K by (meson order_trans zero_le_square)
  have Y0: "0 \<le> Y" using S0 P0 by (simp add: Y_def)
  have M0: "0 \<le> M" using K(1) P0 by (simp add: M_def)
  have "(K * P) * (K * P) = (K * K) * (P * P)" by (simp add: algebra_simps)
  also have "\<dots> \<le> S * (P * P)" using K(2) by (intro mult_right_mono) auto
  finally have lo: "K * P \<le> m" unfolding m using K(1) P0 by (intro isqrt_ge) auto
  have "S + 1 \<le> (K + 1) * (K + 1)" using K(3) by simp
  then have "(S + 1) * (P * P) \<le> ((K + 1) * (K + 1)) * (P * P)"
    by (intro mult_right_mono) auto
  also have "((K + 1) * (K + 1)) * (P * P) = M * M" by (simp add: M_def algebra_simps)
  finally have Yle: "Y + P * P \<le> M * M" by (simp add: Y_def algebra_simps)
  have PP: "0 < P * P" using P0 by simp
  have "Y < M * M" using Yle PP by linarith
  then have mM: "m < M" unfolding m Y_def [symmetric] using Y0 M0 by (intro isqrt_less) auto
  have up: "m' < M"
  proof (cases "Y \<le> m * m + m")
    case True
    then show ?thesis using mM by (simp add: m' Y_def)
  next
    case False
    then have e: "m' = m + 1" by (simp add: m' Y_def)
    show ?thesis
    proof (rule ccontr)
      assume "\<not> m' < M"
      then have mm: "m = M - 1" using mM e by simp
      have "m * m + m = M * M - M" by (simp add: mm algebra_simps)
      then have "M * M - M < Y" using False by simp
      then have "P * P < M" using Yle by linarith
      then have "P * P < (K + 1) * P" by (simp add: M_def)
      then have "P < K + 1" using P0 by (simp only: mult_less_cancel_right_pos)
      with P show False by simp
    qed
  qed
  have "m \<le> m'" by (simp add: m')
  then show ?thesis using lo up by (simp add: M_def)
qed

lemma f64_sqrt_int:
  assumes "0 < S" "S < 2 ^ 52"
  shows "\<exists>v. f64_sqrt (Fin (of_int S)) = Fin v \<and> 0 \<le> v \<and> \<lfloor>v\<rfloor> = isqrt S"
proof -
  define q :: rat where "q = of_int S"
  define L where "L = ilog2 q"
  define s where "s = nat (52 - L div 2)"
  define P :: int where "P = 2 ^ s"
  define Y where "Y = S * (P * P)"
  define m where "m = isqrt Y"
  define m' where "m' = (if Y \<le> m * m + m then m else m + 1)"
  define K where "K = isqrt S"
  have qpos: "0 < q" using assms(1) by (simp add: q_def)
  have L: "0 \<le> L" "L < 52" using ilog2_int_range [OF assms(1), of 52] assms(2)
    by (simp_all add: L_def q_def)
  have s: "27 \<le> s" "L div 2 - 52 = - int s" using L by (simp_all add: s_def)
  have P0: "0 < P" by (simp add: P_def)
  have pe: "pow2 (- int s) = 1 / of_int P" by (simp add: pow2_def P_def)
  have "pow2 (- (2 * int s)) = 1 / 2 ^ (2 * s)" by (simp add: pow2_def nat_mult_distrib)
  also have "(2::rat) ^ (2 * s) = of_int (P * P)" by (simp add: P_def power_add mult_2)
  finally have p2e: "pow2 (- (2 * int s)) = 1 / of_int (P * P)" .
  have y: "q / pow2 (- (2 * int s)) = of_int Y" by (simp add: p2e q_def Y_def)
  have h: "(of_int m + 1 / 2) * (of_int m + 1 / 2) = (of_int (m * m + m) :: rat) + 1 / 4"
    by (simp add: algebra_simps)
  have c1: "(of_int Y :: rat) < (of_int m + 1 / 2) * (of_int m + 1 / 2) \<longleftrightarrow> Y \<le> m * m + m"
    unfolding h by (rule of_int_less_quarter)
  have c2: "(of_int m + 1 / 2) * (of_int m + 1 / 2) < (of_int Y :: rat) \<longleftrightarrow> m * m + m < Y"
    unfolding h by (rule quarter_less_of_int)
  have sq: "f64_sqrt (Fin q) = Fin (of_int m' * pow2 (- int s))"
    using qpos
    by (simp add: f64_sqrt_def Let_def L_def [symmetric] s(2) y c1 c2 m_def [symmetric] m'_def)
  have Kf: "0 \<le> K" "K * K \<le> S" "S < (K + 1) * (K + 1)"
    using isqrt_correct [of S] assms(1) by (simp_all add: K_def)
  have "K * K < 2 ^ 26 * 2 ^ 26" using Kf(2) assms(2) by simp
  then have "K < 2 ^ 26" by (rule square_less_imp_less) simp
  moreover have "(2::int) ^ 27 \<le> 2 ^ s" using s(1) by (intro power_increasing) auto
  ultimately have KP: "K + 1 < P" by (simp add: P_def)
  from sqrt_round_floor [OF Kf KP, of m m'] 
  have b: "K * P \<le> m'" "m' < (K + 1) * P" by (simp_all add: m_def m'_def Y_def)
  have "m' div P = K"
  proof (rule int_div_pos_eq [of m' P K "m' - P * K"])
    show "m' = P * K + (m' - P * K)" by simp
    show "0 \<le> m' - P * K" using b(1) by (simp add: mult.commute)
    show "m' - P * K < P" using b(2) by (simp add: algebra_simps)
  qed
  then have fl: "\<lfloor>of_int m' * pow2 (- int s)\<rfloor> = K"
    by (simp add: pe floor_divide_of_int_eq)
  have "0 \<le> m'" using b(1) Kf(1) P0 by (meson mult_nonneg_nonneg less_imp_le order_trans)
  then have "(0::rat) \<le> of_int m' * pow2 (- int s)" by simp
  then show ?thesis using sq fl by (auto simp: q_def K_def)
qed

lemma f64_sqrt_zero: "f64_sqrt (Fin 0) = Fin 0"
  by (simp add: f64_sqrt_def)

lemma isqrt_zero: "isqrt 0 = 0"
  by (simp add: isqrt.simps [of 0])

lemma isqrt_bound_52:
  assumes "0 \<le> S" "S < 2 ^ 52"
  shows "0 \<le> isqrt S \<and> isqrt S < 2 ^ 26"
proof -
  from isqrt_correct [OF assms(1)] have K: "0 \<le> isqrt S" "isqrt S * isqrt S \<le> S" by auto
  have "isqrt S * isqrt S < 2 ^ 26 * 2 ^ 26" using K(2) assms(2) by simp
  then have "isqrt S < 2 ^ 26" by (rule square_less_imp_less) simp
  then show ?thesis using K(1) by simp
qed

lemma sqrt_of_sum:
  assumes "0 \<le> S" "S < 2 ^ 52"
  shows "int64_of_f64 indef (f64_sqrt (f64_of_int S)) = word_of_int (isqrt S)"
proof (cases "S = 0")
  case True
  then show ?thesis
    by (simp add: f64_of_int_def round64_def f64_sqrt_zero int64_of_f64_def f64_trunc_def isqrt_zero)
next
  case False
  then have pos: "0 < S" using assms by simp
  have "S < 2 ^ 53" using assms(2) by simp
  then have c: "f64_of_int S = Fin (of_int S)" using assms(1) by (simp add: f64_of_int_exact)
  obtain v where v: "f64_sqrt (Fin (of_int S)) = Fin v" "0 \<le> v" "\<lfloor>v\<rfloor> = isqrt S"
    using f64_sqrt_int [OF pos assms(2)] by blast
  have "isqrt S < 2 ^ 63" using isqrt_bound_52 [OF assms] by simp
  moreover have "- (2 ^ 63) \<le> isqrt S" using isqrt_bound_52 [OF assms] by simp
  ultimately show ?thesis using v by (simp add: c int64_of_f64_def f64_trunc_def Let_def)
qed

subsection \<open>The distance of two pixel buffers\<close>

lemma uint_diff_sq_bounds:
  fixes x y :: "8 word"
  shows "0 \<le> (uint x - uint y) * (uint x - uint y) \<and> (uint x - uint y) * (uint x - uint y) \<le> 65025"
proof -
  have x: "0 \<le> uint x" "uint x \<le> 255" using uint_bounded [of x] by simp_all
  have y: "0 \<le> uint y" "uint y \<le> 255" using uint_bounded [of y] by simp_all
  have a: "\<bar>uint x - uint y\<bar> \<le> 255" using x y by linarith
  have "(uint x - uint y) * (uint x - uint y) = \<bar>uint x - uint y\<bar> * \<bar>uint x - uint y\<bar>"
    by (simp add: abs_mult_self_eq)
  also have "\<dots> \<le> 255 * 255" using a by (intro mult_mono) auto
  finally show ?thesis by simp
qed

lemma squareDifference_word:
  "squareDifference x y = word_of_int ((uint x - uint y) * (uint x - uint y))"
proof -
  have u: "(ucast x :: 64 word) = word_of_int (uint x)" "(ucast y :: 64 word) = word_of_int (uint y)"
    by (rule ucast_eq)+
  show ?thesis
    unfolding squareDifference_def Let_def u by (simp only: wi_hom_sub wi_hom_mult)
qed

lemma uint_squareDifference:
  "uint (squareDifference x y) = (uint x - uint y) * (uint x - uint y)"
proof -
  from uint_diff_sq_bounds [of x y]
  have "0 \<le> (uint x - uint y) * (uint x - uint y)" "(uint x - uint y) * (uint x - uint y) < 2 ^ 64"
    by auto
  then show ?thesis
    by (simp only: squareDifference_word uint_word_of_int) simp
qed

lemma sum_squares_Cons:
  "sum_squares (x # a) (y # b) = (uint x - uint y) * (uint x - uint y) + sum_squares a b"
  by (simp add: sum_squares_def)

lemma sum_squares_Nil [simp]: "sum_squares [] b = 0" "sum_squares a [] = 0"
  by (simp_all add: sum_squares_def)

lemma sum_squares_bounds:
  "0 \<le> sum_squares a b \<and> sum_squares a b \<le> 65025 * int (length a)"
proof (induction a arbitrary: b)
  case Nil
  show ?case by simp
next
  case (Cons x a)
  show ?case
  proof (cases b)
    case Nil
    then show ?thesis by simp
  next
    case (Cons y b')
    with Cons.IH [of b'] uint_diff_sq_bounds [of x y] show ?thesis
      by (simp add: sum_squares_Cons)
  qed
qed

lemma diff_loop_sum:
  "length a \<le> length b \<Longrightarrow> i \<le> length a \<Longrightarrow>
   diff_loop a b i d = Inr (d + word_of_int (sum_squares (drop i a) (drop i b)))"
proof (induction a b i d rule: diff_loop.induct)
  case (1 a b i d)
  show ?case
  proof (cases "i < length a")
    case False
    then show ?thesis using "1.prems" by (subst diff_loop.simps) simp
  next
    case True
    then have ib: "i < length b" using "1.prems" by simp
    have da: "drop i a = a ! i # drop (Suc i) a" using True by (simp add: Cons_nth_drop_Suc)
    have db: "drop i b = b ! i # drop (Suc i) b" using ib by (simp add: Cons_nth_drop_Suc)
    have "diff_loop a b i d = diff_loop a b (Suc i) (d + squareDifference (a ! i) (b ! i))"
      using True ib by (subst diff_loop.simps) simp
    also have "\<dots> = Inr (d + squareDifference (a ! i) (b ! i)
                        + word_of_int (sum_squares (drop (Suc i) a) (drop (Suc i) b)))"
      using "1.IH" [OF True ib "1.prems"(1)] True by simp
    also have "\<dots> = Inr (d + word_of_int (sum_squares (drop i a) (drop i b)))"
      by (simp add: da db sum_squares_Cons squareDifference_word wi_hom_syms)
    finally show ?thesis .
  qed
qed

lemma diff_eq:
  assumes "length (Pix a) \<le> length (Pix b)" "sum_squares (Pix a) (Pix b) < 2 ^ 63"
  shows "diff indef a b =
    Inr (int64_of_f64 indef (f64_sqrt (f64_of_int (sum_squares (Pix a) (Pix b)))))"
proof -
  have l: "diff_loop (Pix a) (Pix b) 0 0 = Inr (word_of_int (sum_squares (Pix a) (Pix b)))"
    using diff_loop_sum [OF assms(1), of 0 0] by simp
  have "0 \<le> sum_squares (Pix a) (Pix b)" using sum_squares_bounds by simp
  then have "sint (word_of_int (sum_squares (Pix a) (Pix b)) :: 64 word) = sum_squares (Pix a) (Pix b)"
    using assms(2) by (simp add: sint_sbintrunc' signed_take_bit_int_eq_self)
  then show ?thesis by (simp add: diff_def l)
qed

lemma sum_squares_same: "sum_squares a a = 0"
  by (induction a) (simp_all add: sum_squares_Cons)

lemma diff_same_length_Inr:
  assumes "length (Pix a) = length (Pix b)"
  shows "\<exists>d. diff indef a b = Inr d"
  using diff_loop_sum [of "Pix a" "Pix b" 0 0] assms by (simp add: diff_def)

lemma diff_same_pixels:
  assumes "Pix a = Pix b"
  shows "diff indef a b = Inr 0"
proof -
  have s: "sum_squares (Pix a) (Pix b) = 0" using assms by (simp add: sum_squares_same)
  have "diff indef a b = Inr (int64_of_f64 indef (f64_sqrt (f64_of_int 0)))"
    using diff_eq [of a b indef] assms s by simp
  then show ?thesis using sqrt_of_sum [of 0 indef] by (simp add: isqrt_zero)
qed

lemma calcFitness_monalisa_eq:
  "calcFitness_monalisa indef o1 target =
     (case diff indef (DNA o1) target of Inl e \<Rightarrow> Inl e | Inr d \<Rightarrow> Inr (o1\<lparr> Fitness := d \<rparr>))"
  by (simp add: calcFitness_monalisa_def Let_def split: sum.splits)

lemma abs_square: "\<bar>k\<bar> * \<bar>k\<bar> = k * (k::int)"
  by (simp add: abs_mult_self_eq)

lemma sum_squares_append:
  "length a = length b \<Longrightarrow> sum_squares (a @ a') (b @ b') = sum_squares a b + sum_squares a' b'"
  by (simp add: sum_squares_def)

lemma sum_squares_replicate:
  "sum_squares (replicate n x) (replicate n y) = int n * ((uint x - uint y) * (uint x - uint y))"
  by (induction n) (simp_all add: sum_squares_Cons algebra_simps)

lemma diff_example: "diff indef_amd64 (image_of [3, 10]) (image_of [5, 6]) = Inr 4"
  by code_simp

lemma sum_example: "sum_squares [3, 10] [5, 6] = 20"
  by (simp add: sum_squares_def)

text \<open>
  C3. For an organism and a target with pixel buffers of the same length \<^verbatim>\<open>calcFitness\<close>
  returns the organism with \<open>Fitness\<close> set to the value of \<^verbatim>\<open>diff\<close>: the assignment of 1
  leaves no trace. When the pixels of the organism are those of the target, the fitness
  is 0.
\<close>

theorem calcFitness_monalisa_is_diff:
  "(length (Pix (DNA o1)) = length (Pix target) \<longrightarrow>
      (\<exists>d. diff indef (DNA o1) target = Inr d \<and>
           calcFitness_monalisa indef o1 target = Inr (o1\<lparr> Fitness := d \<rparr>))) \<and>
   (Pix (DNA o1) = Pix target \<longrightarrow>
      calcFitness_monalisa indef o1 target = Inr (o1\<lparr> Fitness := 0 \<rparr>))"
proof (intro conjI impI)
  assume "length (Pix (DNA o1)) = length (Pix target)"
  then obtain d where "diff indef (DNA o1) target = Inr d"
    using diff_same_length_Inr by blast
  then show "\<exists>d. diff indef (DNA o1) target = Inr d \<and>
           calcFitness_monalisa indef o1 target = Inr (o1\<lparr> Fitness := d \<rparr>)"
    by (simp add: calcFitness_monalisa_eq)
next
  assume "Pix (DNA o1) = Pix target"
  then have "diff indef (DNA o1) target = Inr 0" by (rule diff_same_pixels)
  then show "calcFitness_monalisa indef o1 target = Inr (o1\<lparr> Fitness := 0 \<rparr>)"
    by (simp add: calcFitness_monalisa_eq)
qed

theorem calcFitness_monalisa_is_diff_witness:
  "length (Pix (DNA (organism_of [3, 10]))) = length (Pix (image_of [5, 6])) \<and>
   (\<exists>d. diff indef_amd64 (DNA (organism_of [3, 10])) (image_of [5, 6]) = Inr d \<and>
        calcFitness_monalisa indef_amd64 (organism_of [3, 10]) (image_of [5, 6])
          = Inr ((organism_of [3, 10])\<lparr> Fitness := d \<rparr>)) \<and>
   Pix (DNA (organism_of [3, 10])) = Pix (image_of [3, 10]) \<and>
   calcFitness_monalisa indef_amd64 (organism_of [3, 10]) (image_of [3, 10])
     = Inr ((organism_of [3, 10])\<lparr> Fitness := 0 \<rparr>)"
proof -
  have h: "length (Pix (DNA (organism_of [3, 10]))) = length (Pix (image_of [5, 6]))"
    "Pix (DNA (organism_of [3, 10])) = Pix (image_of [3, 10])"
    by (simp_all add: organism_of_def image_of_def)
  from calcFitness_monalisa_is_diff [of "organism_of [3, 10]" "image_of [5, 6]" indef_amd64]
    calcFitness_monalisa_is_diff [of "organism_of [3, 10]" "image_of [3, 10]" indef_amd64] h
  show ?thesis by blast
qed

text \<open>
  C4, as amended. \<^verbatim>\<open>squareDifference(x, y)\<close> is the square of \<open>\<bar>x - y\<bar>\<close> for all bytes,
  although it subtracts modulo \<open>2\<^sup>6\<^sup>4\<close>, and \<^verbatim>\<open>diff(a, a)\<close> is 0. For buffers of the same
  length whose sum of squared differences is below \<open>2\<^sup>5\<^sup>2\<close> (every buffer of at most
  69259509840 bytes), \<^verbatim>\<open>diff\<close> is the integer square root \<open>r\<close> of that sum:
  \<open>r\<^sup>2 \<le> sum < (r + 1)\<^sup>2\<close>.
\<close>

theorem diff_integer_square_root:
  "uint (squareDifference x y) = \<bar>uint x - uint y\<bar> * \<bar>uint x - uint y\<bar> \<and>
   (length (Pix a) = length (Pix b) \<and> sum_squares (Pix a) (Pix b) < 2 ^ 52 \<longrightarrow>
      (\<exists>r. diff indef a b = Inr (word_of_int r) \<and> 0 \<le> r \<and>
           r * r \<le> sum_squares (Pix a) (Pix b) \<and>
           sum_squares (Pix a) (Pix b) < (r + 1) * (r + 1))) \<and>
   (int (length (Pix a)) \<le> 69259509840 \<longrightarrow> sum_squares (Pix a) (Pix b) < 2 ^ 52) \<and>
   diff indef a a = Inr 0"
proof (intro conjI impI)
  show "uint (squareDifference x y) = \<bar>uint x - uint y\<bar> * \<bar>uint x - uint y\<bar>"
    by (simp only: uint_squareDifference abs_square)
next
  assume h: "length (Pix a) = length (Pix b) \<and> sum_squares (Pix a) (Pix b) < 2 ^ 52"
  let ?S = "sum_squares (Pix a) (Pix b)"
  have S0: "0 \<le> ?S" using sum_squares_bounds by simp
  have "?S < 2 ^ 63" using h by simp
  then have "diff indef a b = Inr (int64_of_f64 indef (f64_sqrt (f64_of_int ?S)))"
    using diff_eq [of a b indef] h by simp
  then have "diff indef a b = Inr (word_of_int (isqrt ?S))"
    using sqrt_of_sum [OF S0, of indef] h by simp
  then show "\<exists>r. diff indef a b = Inr (word_of_int r) \<and> 0 \<le> r \<and> r * r \<le> ?S \<and> ?S < (r + 1) * (r + 1)"
    using isqrt_correct [OF S0] by blast
next
  assume "int (length (Pix a)) \<le> 69259509840"
  then have "65025 * int (length (Pix a)) \<le> 65025 * 69259509840" by simp
  then show "sum_squares (Pix a) (Pix b) < 2 ^ 52"
    using sum_squares_bounds [of "Pix a" "Pix b"] by simp
next
  show "diff indef a a = Inr 0" by (rule diff_same_pixels) simp
qed

theorem diff_integer_square_root_witness:
  "length (Pix (image_of [3, 10])) = length (Pix (image_of [5, 6])) \<and>
   sum_squares (Pix (image_of [3, 10])) (Pix (image_of [5, 6])) < 2 ^ 52 \<and>
   int (length (Pix (image_of [3, 10]))) \<le> 69259509840 \<and>
   uint (squareDifference 3 5) = \<bar>uint (3 :: 8 word) - uint (5 :: 8 word)\<bar> * \<bar>uint (3 :: 8 word) - uint (5 :: 8 word)\<bar> \<and>
   (\<exists>r. diff indef_amd64 (image_of [3, 10]) (image_of [5, 6]) = Inr (word_of_int r) \<and> 0 \<le> r \<and>
        r * r \<le> sum_squares (Pix (image_of [3, 10])) (Pix (image_of [5, 6])) \<and>
        sum_squares (Pix (image_of [3, 10])) (Pix (image_of [5, 6])) < (r + 1) * (r + 1)) \<and>
   diff indef_amd64 (image_of [3, 10]) (image_of [3, 10]) = Inr 0"
proof -
  have h: "length (Pix (image_of [3, 10])) = length (Pix (image_of [5, 6]))"
    "sum_squares (Pix (image_of [3, 10])) (Pix (image_of [5, 6])) < 2 ^ 52"
    "int (length (Pix (image_of [3, 10]))) \<le> 69259509840"
    by (simp_all add: image_of_def sum_example)
  from diff_integer_square_root [of 3 5 "image_of [3, 10]" "image_of [5, 6]" indef_amd64] h
  show ?thesis by blast
qed

text \<open>
  C4, as stated, fails: \<^verbatim>\<open>diff\<close> takes the square root in float64. For two buffers of
  69259511909 bytes whose squared differences add up to \<open>(2\<^sup>2\<^sup>6 + 1)\<^sup>2 - 1\<close>, the exact root
  lies less than half a unit in the last place below \<open>2\<^sup>2\<^sup>6 + 1\<close>: \<^verbatim>\<open>math.Sqrt\<close> rounds it up
  and \<^verbatim>\<open>diff\<close> returns 67108865, whose square exceeds the sum.
\<close>

theorem diff_not_integer_square_root:
  "length (Pix (image_of (replicate 69259511904 255 @ [174, 18, 4, 2, 2])))
     = length (Pix (image_of (replicate 69259511909 0))) \<and>
   sum_squares (Pix (image_of (replicate 69259511904 255 @ [174, 18, 4, 2, 2])))
     (Pix (image_of (replicate 69259511909 0))) = 4503599761588224 \<and>
   diff indef_amd64 (image_of (replicate 69259511904 255 @ [174, 18, 4, 2, 2]))
     (image_of (replicate 69259511909 0)) = Inr 67108865 \<and>
   (4503599761588224 :: int) < 67108865 * 67108865"
proof -
  let ?a = "replicate 69259511904 (255 :: 8 word) @ [174, 18, 4, 2, 2]"
  let ?b = "replicate 69259511909 (0 :: 8 word)"
  have b: "?b = replicate 69259511904 0 @ [0, 0, 0, 0, 0]"
  proof -
    have "(69259511909 :: nat) = 69259511904 + 5" by simp
    then have "?b = replicate 69259511904 0 @ replicate 5 0" by (simp only: replicate_add)
    also have "replicate 5 (0 :: 8 word) = [0, 0, 0, 0, 0]" by (simp add: numeral_eq_Suc)
    finally show ?thesis .
  qed
  have len: "length ?a = length ?b" by (simp only: length_append length_replicate) simp
  have "sum_squares ?a ?b =
      sum_squares (replicate 69259511904 255) (replicate 69259511904 0)
      + sum_squares [174, 18, 4, 2, 2] [0, 0, 0, 0, 0]"
    unfolding b by (rule sum_squares_append) (simp only: length_replicate)
  also have "sum_squares [174, 18, 4, 2, 2] [0, 0, 0, 0, 0] = 30624" by (simp add: sum_squares_def)
  also have "sum_squares (replicate 69259511904 255) (replicate 69259511904 0)
      = int 69259511904 * ((uint (255 :: 8 word) - uint (0 :: 8 word)) * (uint (255 :: 8 word) - uint (0 :: 8 word)))"
    by (rule sum_squares_replicate)
  finally have S: "sum_squares ?a ?b = 4503599761588224" by simp
  have P: "Pix (image_of ?a) = ?a" "Pix (image_of ?b) = ?b" by (simp_all only: image_of_def RGBA.simps)
  have e: "f64_sqrt (f64_of_int 4503599761588224) = Fin 67108865" by code_simp
  have "diff indef_amd64 (image_of ?a) (image_of ?b) =
      Inr (int64_of_f64 indef_amd64 (f64_sqrt (f64_of_int (sum_squares ?a ?b))))"
    using diff_eq [of "image_of ?a" "image_of ?b" indef_amd64] len unfolding P S by simp
  then have D: "diff indef_amd64 (image_of ?a) (image_of ?b) = Inr 67108865"
    unfolding S e by (simp add: int64_of_f64_def f64_trunc_def)
  show ?thesis unfolding P using len S D unfolding P by simp
qed

subsection \<open>Numbers that float64 represents exactly\<close>

lemma pow2_diff: "pow2 (a - b) = pow2 a / pow2 b"
proof -
  have "pow2 a = pow2 (a - b) * pow2 b" using pow2_add [of "a - b" b] by simp
  then show ?thesis by simp
qed

lemma ilog2_scale:
  assumes "0 < q"
  shows "ilog2 (q * pow2 k) = ilog2 q + k"
proof (rule ilog2_unique)
  show "0 < q * pow2 k" using assms by simp
  have "pow2 (ilog2 q) \<le> q" using ilog2_bounds [OF assms] by simp
  then show "pow2 (ilog2 q + k) \<le> q * pow2 k" by (simp add: pow2_add)
  have "q < pow2 (ilog2 q + 1)" using ilog2_bounds [OF assms] by simp
  then have "q * pow2 k < pow2 (ilog2 q + 1) * pow2 k" by simp
  then show "q * pow2 k < pow2 (ilog2 q + k + 1)" by (simp add: pow2_add ac_simps)
qed

lemma round_grid_exact:
  assumes "0 < n" "n < 2 ^ 53" "- 1074 \<le> k"
  shows "round_grid (of_int n * pow2 k) = of_int n * pow2 k"
proof -
  let ?q = "of_int n * pow2 k :: rat"
  have npos: "(0::rat) < of_int n" using assms(1) by simp
  have qpos: "0 < ?q" using npos by simp
  have L: "0 \<le> ilog2 (of_int n)" "ilog2 (of_int n) < 53"
    using ilog2_int_range [OF assms(1,2)] by simp_all
  define e where "e = ulp_exp ?q"
  have e: "e = max (ilog2 (of_int n) + k - 52) (- 1074)"
    by (simp add: e_def ulp_exp_pos [OF qpos] ilog2_scale [OF npos])
  have ek: "e \<le> k" using L assms(3) by (simp add: e)
  define j where "j = nat (k - e)"
  have "pow2 k / pow2 e = pow2 (int j)" using ek by (simp add: j_def pow2_diff)
  then have d: "pow2 k = 2 ^ j * pow2 e" by (simp add: pow2_nat field_simps)
  have "?q / pow2 e = of_int (n * 2 ^ j)" by (simp add: d)
  then have "round_even (?q / pow2 e) = n * 2 ^ j" by (simp only: round_even_of_int)
  then have "round_grid ?q = of_int (n * 2 ^ j) * pow2 e"
    by (simp only: round_grid_def e_def [symmetric])
  then show ?thesis by (simp add: d)
qed




subsection \<open>The fitness of the string program\<close>

lemma match_count_Cons:
  "match_count (x # g) (y # t) = (if x = y then 1 else 0) + match_count g t"
  by (simp add: match_count_def)

lemma match_count_Nil [simp]: "match_count [] t = 0" "match_count g [] = 0"
  by (simp_all add: match_count_def)

lemma match_count_le: "match_count g t \<le> length g"
proof -
  have "match_count g t \<le> length (zip g t)" unfolding match_count_def by (rule length_filter_le)
  then show ?thesis by simp
qed

lemma match_count_same: "match_count g g = length g"
  by (induction g) (simp_all add: match_count_Cons)

lemma score_loop_count:
  "length g \<le> length target \<Longrightarrow> i \<le> length g \<Longrightarrow>
   score_loop g target i score = Inr (score + int (match_count (drop i g) (drop i target)))"
proof (induction g target i score rule: score_loop.induct)
  case (1 g target i score)
  show ?case
  proof (cases "i < length g")
    case False
    then show ?thesis using "1.prems" by (subst score_loop.simps) simp
  next
    case True
    then have it: "i < length target" using "1.prems" by simp
    have dg: "drop i g = g ! i # drop (Suc i) g" using True by (simp add: Cons_nth_drop_Suc)
    have dt: "drop i target = target ! i # drop (Suc i) target"
      using it by (simp add: Cons_nth_drop_Suc)
    have "score_loop g target i score =
        score_loop g target (Suc i) (if g ! i = target ! i then score + 1 else score)"
      using True it by (subst score_loop.simps) simp
    also have "\<dots> = Inr ((if g ! i = target ! i then score + 1 else score)
                       + int (match_count (drop (Suc i) g) (drop (Suc i) target)))"
      using "1.IH" [OF True it "1.prems"(1)] True by simp
    also have "\<dots> = Inr (score + int (match_count (drop i g) (drop i target)))"
      by (simp add: dg dt match_count_Cons)
    finally show ?thesis .
  qed
qed

lemma calcFitness_eq:
  assumes "length (Gene d) \<le> length target"
  shows "calcFitness d target = Inr (d\<lparr> DNA.Fitness := match_fitness (Gene d) target \<rparr>)"
  using score_loop_count [OF assms, of 0 0]
  by (simp add: calcFitness_def match_fitness_def)

lemma round64_pos_eq:
  assumes "0 < q"
  shows "round64 q = (if pow2 1024 \<le> round_grid q then PInf else Fin (round_grid q))"
  using assms round_grid_nonneg [OF assms] by (simp add: round64_def)

lemma round_grid_pow2_1024: "(2 :: rat) ^ 53 < pow2 1024"
proof -
  have "pow2 53 < pow2 1024" by (simp add: pow2_less_iff)
  then show ?thesis by (simp add: pow2_numeral)
qed

lemma round64_between:
  assumes "0 \<le> q" "q \<le> of_int N" "N < 2 ^ 53"
  shows "\<exists>v. round64 q = Fin v \<and> 0 \<le> v \<and> v \<le> of_int N"
proof (cases "q = 0")
  case True
  then show ?thesis using assms by (simp add: round64_def)
next
  case False
  then have qpos: "0 < q" using assms(1) by simp
  then have "(0::rat) < of_int N" using assms(2) by simp
  then have Npos: "0 < N" by simp
  have "round_grid q \<le> round_grid (of_int N)" by (rule round_grid_mono [OF qpos assms(2)])
  then have le: "round_grid q \<le> of_int N" by (simp add: round_grid_int_exact [OF Npos assms(3)])
  have "(of_int N :: rat) < of_int (2 ^ 53)" using assms(3) by (simp only: of_int_less_iff)
  then have "round_grid q < pow2 1024" using le round_grid_pow2_1024 by simp
  then show ?thesis using le round_grid_nonneg [OF qpos] by (simp add: round64_pos_eq [OF qpos])
qed

lemma round64_one: "round64 1 = Fin 1"
  using round64_int_exact [of 1] by simp

lemma round_grid_2_63: "round_grid (2 ^ 63) = 2 ^ 63"
  using round_grid_exact [of 1 63] by (simp add: pow2_def)

lemma f64_of_nat_finite:
  assumes "0 < n" "n < 2 ^ 63"
  shows "f64_of_int (int n) = Fin (round_grid (of_nat n)) \<and> 1 \<le> round_grid (of_nat n)"
proof -
  have pos: "(0::rat) < of_nat n" using assms(1) by simp
  have "(of_nat n :: rat) \<le> 2 ^ 63" using assms(2) by (metis less_imp_le of_nat_le_iff of_nat_numeral of_nat_power)
  then have "round_grid (of_nat n) \<le> round_grid (2 ^ 63)" by (rule round_grid_mono [OF pos])
  also have "\<dots> = 2 ^ 63" by (rule round_grid_2_63)
  also have "(2 :: rat) ^ 63 = pow2 63" by (simp add: pow2_numeral)
  also have "pow2 63 < pow2 1024" by (simp add: pow2_less_iff)
  finally have fin: "\<not> pow2 1024 \<le> round_grid (of_nat n)" by simp
  have "(1 :: rat) \<le> of_nat n" using assms(1) by simp
  then have "round_grid 1 \<le> round_grid (of_nat n)" by (intro round_grid_mono) auto
  moreover have "round_grid 1 = 1" using round_grid_int_exact [of 1] by simp
  ultimately have one: "1 \<le> round_grid (of_nat n)" by simp
  show ?thesis using fin one round64_pos_eq [OF pos] by (simp add: f64_of_int_def)
qed

lemma f64_of_int_zero: "f64_of_int 0 = Fin 0"
  by (simp add: f64_of_int_def round64_def)

lemma match_fitness_unit:
  assumes "0 < length g" "length g < 2 ^ 63"
  shows "\<exists>v. match_fitness g target = Fin v \<and> 0 \<le> v \<and> v \<le> 1"
proof -
  let ?m = "match_count g target"
  obtain b where b: "f64_of_int (int (length g)) = Fin b" "1 \<le> b"
    using f64_of_nat_finite [OF assms] by blast
  have "\<exists>a. f64_of_int (int ?m) = Fin a \<and> 0 \<le> a \<and> a \<le> b"
  proof (cases "?m = 0")
    case True
    then show ?thesis using b by (simp add: f64_of_int_zero)
  next
    case False
    then have m0: "0 < ?m" by simp
    have ml: "?m \<le> length g" by (rule match_count_le)
    then have "?m < 2 ^ 63" using assms(2) by simp
    from f64_of_nat_finite [OF m0 this]
    have a: "f64_of_int (int ?m) = Fin (round_grid (of_nat ?m))" "1 \<le> round_grid (of_nat ?m)" by auto
    have "round_grid (of_nat ?m) \<le> round_grid (of_nat (length g))"
      using m0 ml by (intro round_grid_mono) auto
    moreover have "b = round_grid (of_nat (length g))"
      using b(1) f64_of_nat_finite [OF assms] by simp
    ultimately show ?thesis using a by auto
  qed
  then obtain a where a: "f64_of_int (int ?m) = Fin a" "0 \<le> a" "a \<le> b" by blast
  have b0: "0 < b" using b(2) by simp
  have "0 \<le> a / b" "a / b \<le> of_int 1" using a b0 by simp_all
  from round64_between [OF this] obtain v where "round64 (a / b) = Fin v" "0 \<le> v" "v \<le> 1" by auto
  then show ?thesis using a(1) b(1) b0 by (simp add: match_fitness_def)
qed

lemma match_fitness_same:
  assumes "0 < length g" "length g < 2 ^ 63"
  shows "match_fitness g g = Fin 1"
proof -
  obtain b where b: "f64_of_int (int (length g)) = Fin b" "1 \<le> b"
    using f64_of_nat_finite [OF assms] by blast
  then have "b \<noteq> 0" by auto
  then show ?thesis using b(1) by (simp add: match_fitness_def match_count_same round64_one)
qed

lemma match_fitness_rounded:
  assumes "0 < length g" "length g < 2 ^ 53"
  shows "match_fitness g target = round64 (of_nat (match_count g target) / of_nat (length g))"
proof -
  have l: "f64_of_int (int (length g)) = Fin (of_int (int (length g)))"
    using assms(2) by (intro f64_of_int_exact) auto
  have "match_count g target < 2 ^ 53" using match_count_le [of g target] assms(2) by simp
  then have m: "f64_of_int (int (match_count g target)) = Fin (of_int (int (match_count g target)))"
    by (intro f64_of_int_exact) auto
  show ?thesis using assms(1) by (simp add: match_fitness_def l m)
qed

text \<open>
  C5, as amended. For a gene and a target of the same length, which is positive (and
  below \<open>2\<^sup>6\<^sup>3\<close>, as the length of every slice), \<^verbatim>\<open>calcFitness\<close> sets \<open>Fitness\<close> to the
  float64 quotient of the number of agreeing positions by the length. It lies in
  \<open>[0, 1]\<close>, it is the quotient rounded to float64 once (for lengths below \<open>2\<^sup>5\<^sup>3\<close>, which
  float64 holds exactly), and it is 1 when the gene is the target.
\<close>

theorem calcFitness_match_ratio:
  assumes "length (Gene d) = length target" and "0 < length target" and "length target < 2 ^ 63"
  shows "\<exists>v. calcFitness d target = Inr (d\<lparr> DNA.Fitness := Fin v \<rparr>) \<and>
           Fin v = f64_div (f64_of_int (int (match_count (Gene d) target)))
                     (f64_of_int (int (length (Gene d)))) \<and>
           0 \<le> v \<and> v \<le> 1 \<and>
           (length target < 2 ^ 53 \<longrightarrow>
              Fin v = round64 (of_nat (match_count (Gene d) target) / of_nat (length (Gene d)))) \<and>
           (Gene d = target \<longrightarrow> v = 1)"
proof -
  have l: "0 < length (Gene d)" "length (Gene d) < 2 ^ 63" using assms by simp_all
  obtain v where v: "match_fitness (Gene d) target = Fin v" "0 \<le> v" "v \<le> 1"
    using match_fitness_unit [OF l] by blast
  have c: "calcFitness d target = Inr (d\<lparr> DNA.Fitness := Fin v \<rparr>)"
    using calcFitness_eq [of d target] assms(1) v(1) by simp
  have r: "length target < 2 ^ 53 \<longrightarrow>
      Fin v = round64 (of_nat (match_count (Gene d) target) / of_nat (length (Gene d)))"
    using match_fitness_rounded [OF l(1), of target] v(1) assms(1) by auto
  have s: "Gene d = target \<longrightarrow> v = 1"
    using match_fitness_same [OF l] v(1) by auto
  show ?thesis using c v r s by (auto simp: match_fitness_def)
qed

theorem calcFitness_match_ratio_witness:
  "length (Gene (dna_of [1, 2, 9, 9])) = length [1, 2, 3, 4 :: 8 word] \<and>
   0 < length [1, 2, 3, 4 :: 8 word] \<and> length [1, 2, 3, 4 :: 8 word] < 2 ^ 63 \<and>
   (\<exists>v. calcFitness (dna_of [1, 2, 9, 9]) [1, 2, 3, 4] = Inr ((dna_of [1, 2, 9, 9])\<lparr> DNA.Fitness := Fin v \<rparr>) \<and>
        Fin v = f64_div (f64_of_int (int (match_count (Gene (dna_of [1, 2, 9, 9])) [1, 2, 3, 4])))
                  (f64_of_int (int (length (Gene (dna_of [1, 2, 9, 9]))))) \<and>
        0 \<le> v \<and> v \<le> 1 \<and>
        (length [1, 2, 3, 4 :: 8 word] < 2 ^ 53 \<longrightarrow>
           Fin v = round64 (of_nat (match_count (Gene (dna_of [1, 2, 9, 9])) [1, 2, 3, 4])
                             / of_nat (length (Gene (dna_of [1, 2, 9, 9]))))) \<and>
        (Gene (dna_of [1, 2, 9, 9]) = [1, 2, 3, 4] \<longrightarrow> v = 1))"
proof -
  have h: "length (Gene (dna_of [1, 2, 9, 9])) = length [1, 2, 3, 4 :: 8 word]"
    "0 < length [1, 2, 3, 4 :: 8 word]" "length [1, 2, 3, 4 :: 8 word] < 2 ^ 63"
    by (simp_all add: dna_of_def)
  from calcFitness_match_ratio [OF h] h show ?thesis by blast
qed

text \<open>
  C5, as stated, fails for the empty gene and the empty target, which have equal length:
  the quotient is \<open>0.0 / 0.0\<close>, and the fitness is NaN, neither in \<open>[0, 1]\<close> nor 1.
\<close>

theorem calcFitness_empty_genome:
  "length (Gene (dna_of [])) = length ([] :: 8 word list) \<and>
   calcFitness (dna_of []) [] = Inr ((dna_of [])\<lparr> DNA.Fitness := NaN \<rparr>)"
  by (simp add: calcFitness_def dna_of_def score_loop.simps f64_of_int_def round64_def)

subsection \<open>The pool of the string program\<close>












end
